theory Spec2Isabelle
  imports Main "HOL-Library.Multiset" "HOL-Library.Finite_Map"
begin

section \<open>Errors\<close>

text \<open>
  Every exception the translation can raise is a value.  \<open>KeyError\<close> is Python's error of a
  dictionary subscript with an absent key, \<open>TypeError\<close> the error of calling a handler with
  the wrong number of captured groups, \<open>ValueError\<close> the error of \<open>int\<close> on a string that is
  no number and of \<open>numpy.transpose\<close> on axes that do not fit the array, \<open>IndexError\<close> the
  error of a subscript out of range.  The three named errors of the translation engine are
  those of the specification.
\<close>

datatype error =
    KeyError string
  | TypeError
  | ValueError
  | IndexError
  | UnmatchedKeyError string
  | DuplicateTargetKeyError string
  | StructuralConflictError

section \<open>Python's \<open>int\<close> and \<open>str\<close> on decimal numbers\<close>

definition is_digit :: "char \<Rightarrow> bool" where
  "is_digit c = (48 \<le> (of_char c :: nat) \<and> (of_char c :: nat) \<le> 57)"

definition digit_val :: "char \<Rightarrow> nat" where
  "digit_val c = of_char c - 48"

text \<open>
  A string is its code points, all below 256.  The characters that \<open>int\<close> strips from both
  ends of a string are the six ASCII white-space characters and, above 127, the two
  white-space code points \<open>0x85\<close> and \<open>0xA0\<close>; the separators \<open>0x1C\<close> to \<open>0x1F\<close> are not
  stripped.
\<close>

definition is_space :: "char \<Rightarrow> bool" where
  "is_space c = ((of_char c :: nat) \<in> {9, 10, 11, 12, 13, 32, 133, 160})"

definition strip :: "string \<Rightarrow> string" where
  "strip s = rev (dropWhile is_space (rev (dropWhile is_space s)))"

text \<open>
  The digits of a literal, with single underscores allowed between digits:
  \<open>None\<close> when the string is empty, starts or ends with an underscore, has two
  underscores in a row or holds any other character.
\<close>

fun digits_of :: "string \<Rightarrow> string option" where
  "digits_of [] = None"
| "digits_of [c] = (if is_digit c then Some [c] else None)"
| "digits_of (c # d # s) =
     (if is_digit c then
        (if d = CHR ''_'' then map_option ((#) c) (digits_of s)
         else map_option ((#) c) (digits_of (d # s)))
      else None)"

definition nat_of_digits :: "string \<Rightarrow> nat" where
  "nat_of_digits ds = foldl (\<lambda>n c. 10 * n + digit_val c) 0 ds"

text \<open>
  \<open>int(s)\<close>: surrounding white space, an optional sign, decimal digits.  A literal of more
  than 4300 digits is refused with \<open>ValueError\<close>, the default limit of the interpreter.
\<close>

definition py_int :: "string \<Rightarrow> error + int" where
  "py_int s =
     (let t = strip s;
          (neg, body) = (case t of
                           c # r \<Rightarrow> if c = CHR ''-'' then (True, r)
                                    else if c = CHR ''+'' then (False, r)
                                    else (False, t)
                         | [] \<Rightarrow> (False, t))
      in case digits_of body of
           None \<Rightarrow> Inl ValueError
         | Some ds \<Rightarrow>
             if length ds > 4300 then Inl ValueError
             else Inr (if neg then - int (nat_of_digits ds) else int (nat_of_digits ds)))"

fun str_nat :: "nat \<Rightarrow> string" where
  "str_nat n =
     (if n < 10 then [''0123456789'' ! n]
      else str_nat (n div 10) @ [''0123456789'' ! (n mod 10)])"

declare str_nat.simps [simp del]

text \<open>\<open>str(n)\<close>, which is what an f-string writes for an integer.\<close>

definition py_str :: "int \<Rightarrow> string" where
  "py_str n = (if n < 0 then CHR ''-'' # str_nat (nat (- n)) else str_nat (nat n))"

section \<open>Arrays\<close>

text \<open>
  An array is its shape and its elements in row-major order; the element type is left open.
  An array is well formed when it has as many elements as its shape says.
\<close>

datatype 'a ndarray = NDArray (shape: "nat list") (elems: "'a list")

definition wf_array :: "'a ndarray \<Rightarrow> bool" where
  "wf_array a = (length (elems a) = prod_list (shape a))"

text \<open>\<open>val.reshape(-1)\<close>: one axis holding every element.\<close>

definition reshape_flat :: "'a ndarray \<Rightarrow> 'a ndarray" where
  "reshape_flat a = NDArray [length (elems a)] (elems a)"

text \<open>
  The multi-indices of a shape in row-major order, and the position of a multi-index in
  the row-major listing of the elements.
\<close>

fun all_indices :: "nat list \<Rightarrow> nat list list" where
  "all_indices [] = [[]]"
| "all_indices (n # sh) = concat (map (\<lambda>i. map ((#) i) (all_indices sh)) [0..<n])"

fun flat_index :: "nat list \<Rightarrow> nat list \<Rightarrow> nat" where
  "flat_index (n # sh) (i # idx) = i * prod_list sh + flat_index sh idx"
| "flat_index sh idx = 0"

text \<open>
  \<open>a[idx]\<close> for a full multi-index.  It is read only at indices that are valid for the
  shape of a well-formed array.
\<close>

definition item :: "'a ndarray \<Rightarrow> nat list \<Rightarrow> 'a" where
  "item a idx = elems a ! flat_index (shape a) idx"

text \<open>
  \<open>numpy.transpose(a, axes)\<close>: \<open>axes\<close> must be a permutation of the axes of \<open>a\<close>, or numpy
  raises \<open>ValueError\<close> (axes don't match array; repeated axis; axis out of bounds).  Axis
  \<open>i\<close> of the result is axis \<open>axes[i]\<close> of \<open>a\<close>, so the result at \<open>idx\<close> is \<open>a\<close> at the
  index that holds \<open>idx[i]\<close> at position \<open>axes[i]\<close>.
\<close>

definition index_of :: "nat list \<Rightarrow> nat \<Rightarrow> nat" where
  "index_of axes k = length (takeWhile (\<lambda>x. x \<noteq> k) axes)"

definition source_index :: "nat list \<Rightarrow> nat list \<Rightarrow> nat list" where
  "source_index axes idx = map (\<lambda>k. idx ! index_of axes k) [0..<length axes]"

definition np_transpose :: "'a ndarray \<Rightarrow> nat list \<Rightarrow> error + 'a ndarray" where
  "np_transpose a axes =
     (if length axes \<noteq> length (shape a) then Inl ValueError
      else if \<not> (distinct axes \<and> list_all (\<lambda>k. k < length axes) axes) then Inl ValueError
      else let sh = map ((!) (shape a)) axes
           in Inr (NDArray sh (map (\<lambda>idx. item a (source_index axes idx)) (all_indices sh))))"

definition transpose_conv_weights :: "'a ndarray \<Rightarrow> error + 'a ndarray" where
  "transpose_conv_weights w = np_transpose w [2, 3, 1, 0]"

definition valid_index :: "nat list \<Rightarrow> nat list \<Rightarrow> bool" where
  "valid_index sh idx = list_all2 (<) idx sh"

section \<open>Regular expressions of the rule patterns\<close>

text \<open>
  The patterns of the rule set are written in a small fragment of Python's regular
  expressions: a literal character (\<open>Chr\<close>; \<open>\<^verbatim>\<open>\.\<close>\<close> is the literal dot), the wildcard
  \<open>.\<close> (\<open>Dot\<close>, any character but a newline), a capturing group of literal alternatives
  such as \<open>(weight|bias)\<close> (\<open>Alt\<close>) and the capturing group \<open>(\d+)\<close> (\<open>Digits\<close>; on the
  byte strings used here a digit is one of \<open>0\<close> to \<open>9\<close>).
\<close>

datatype token = Chr char | Dot | Alt "string list" | Digits

type_synonym regex = "token list"

definition lit :: "string \<Rightarrow> regex" where
  "lit s = map Chr s"

definition startswith :: "string \<Rightarrow> string \<Rightarrow> bool" where
  "startswith s a = (take (length a) s = a)"

fun first_some :: "'b option list \<Rightarrow> 'b option" where
  "first_some [] = None"
| "first_some (None # xs) = first_some xs"
| "first_some (Some x # xs) = Some x"

text \<open>
  \<open>re.fullmatch(pattern, s)\<close> followed by \<open>.groups()\<close>: a backtracking match of the whole
  string, \<open>None\<close> when there is none, otherwise the captured groups from left to right.
  Alternatives are tried in the order written; \<open>\d+\<close> is greedy, so the longest run of
  digits is tried first and shorter ones after it.
\<close>

fun fullmatch :: "regex \<Rightarrow> string \<Rightarrow> string list option" where
  "fullmatch [] s = (if s = [] then Some [] else None)"
| "fullmatch (Chr c # p) s =
     (case s of [] \<Rightarrow> None | x # t \<Rightarrow> if x = c then fullmatch p t else None)"
| "fullmatch (Dot # p) s =
     (case s of [] \<Rightarrow> None | x # t \<Rightarrow> if x \<noteq> CHR 0x0A then fullmatch p t else None)"
| "fullmatch (Alt alts # p) s =
     first_some (map (\<lambda>a. if startswith s a
                            then map_option ((#) a) (fullmatch p (drop (length a) s))
                            else None) alts)"
| "fullmatch (Digits # p) s =
     first_some (map (\<lambda>k. map_option ((#) (take k s)) (fullmatch p (drop k s)))
                     (rev [1..<Suc (length (takeWhile is_digit s))]))"

text \<open>
  What a full match means, stated without the search: the string is cut into one piece
  per token, from its first character to its last, and the groups are the pieces of the
  capturing tokens in order.
\<close>

fun spans :: "regex \<Rightarrow> string \<Rightarrow> string list \<Rightarrow> bool" where
  "spans [] s gs = (s = [] \<and> gs = [])"
| "spans (Chr c # p) s gs = (case s of [] \<Rightarrow> False | x # t \<Rightarrow> x = c \<and> spans p t gs)"
| "spans (Dot # p) s gs = (case s of [] \<Rightarrow> False | x # t \<Rightarrow> x \<noteq> CHR 0x0A \<and> spans p t gs)"
| "spans (Alt alts # p) s gs =
     (case gs of [] \<Rightarrow> False
      | g # gs' \<Rightarrow> g \<in> set alts \<and> startswith s g \<and> spans p (drop (length g) s) gs')"
| "spans (Digits # p) s gs =
     (case gs of [] \<Rightarrow> False
      | g # gs' \<Rightarrow> g \<noteq> [] \<and> list_all is_digit g \<and> startswith s g
                  \<and> spans p (drop (length g) s) gs')"

section \<open>The ConvNeXt handlers\<close>

text \<open>Sequencing of steps that may raise: the first error ends the computation.\<close>

definition bind_err :: "error + 'b \<Rightarrow> ('b \<Rightarrow> error + 'c) \<Rightarrow> error + 'c" where
  "bind_err m f = (case m of Inl e \<Rightarrow> Inl e | Inr x \<Rightarrow> f x)"

text \<open>A dictionary display subscripted by a key: \<open>KeyError\<close> when the key is absent.\<close>

definition subscript :: "(string \<times> 'b) list \<Rightarrow> string \<Rightarrow> error + 'b" where
  "subscript d k = (case map_of d k of None \<Rightarrow> Inl (KeyError k) | Some v \<Rightarrow> Inr v)"

definition subscript_int :: "(int \<times> 'b) list \<Rightarrow> int \<Rightarrow> error + 'b" where
  "subscript_int d k = (case map_of d k of None \<Rightarrow> Inl (KeyError (py_str k)) | Some v \<Rightarrow> Inr v)"

text \<open>
  A handler is called as \<open>fn(key, val, *groups)\<close>; a number of groups other than the number
  of its parameters is Python's \<open>TypeError\<close>.  Each handler below follows its source
  statement by statement, so that the first statement that raises decides the error.
\<close>

type_synonym 'a handler = "string \<Rightarrow> 'a ndarray \<Rightarrow> string list \<Rightarrow> error + (string \<times> 'a ndarray)"

text \<open>
  The expression \<open>(int(stage) - 1) // 2\<close> of the four block handlers.  Python's \<open>//\<close> on
  integers is floor division, which is \<open>div\<close> on \<open>int\<close>.
\<close>

definition new_stage :: "int \<Rightarrow> int" where
  "new_stage stage = (stage - 1) div 2"

fun initial_conv :: "'a handler" where
  "initial_conv key val [weight_or_bias] =
     bind_err (subscript [(''weight'', ''kernel''), (''bias'', ''bias'')] weight_or_bias) (\<lambda>newname.
     bind_err (if newname = ''kernel'' then transpose_conv_weights val else Inr val) (\<lambda>val'.
     Inr (''stem/layers_0/'' @ newname, val')))"
| "initial_conv key val groups = Inl TypeError"

fun initial_norm :: "'a handler" where
  "initial_norm key val [weight_or_bias] =
     bind_err (subscript [(''weight'', ''scale''), (''bias'', ''bias'')] weight_or_bias) (\<lambda>newname.
     Inr (''stem/layers_1/'' @ newname, val))"
| "initial_norm key val groups = Inl TypeError"

fun cn_block_layer_scale :: "'a handler" where
  "cn_block_layer_scale key val [stage, block_id] =
     bind_err (py_int stage) (\<lambda>st.
     Inr (''stages_'' @ py_str (new_stage st) @ ''/CNBlock_'' @ block_id @ ''/layer_scale'',
          reshape_flat val))"
| "cn_block_layer_scale key val groups = Inl TypeError"

fun cn_block_block_conv :: "'a handler" where
  "cn_block_block_conv key val [stage, block, weight_or_bias] =
     bind_err (subscript [(''weight'', ''kernel''), (''bias'', ''bias'')] weight_or_bias) (\<lambda>newname.
     bind_err (py_int stage) (\<lambda>st.
     bind_err (if weight_or_bias = ''weight'' then transpose_conv_weights val else Inr val) (\<lambda>val'.
     Inr (''stages_'' @ py_str (new_stage st) @ ''/CNBlock_'' @ block @ ''/block/layers_0/''
            @ newname, val'))))"
| "cn_block_block_conv key val groups = Inl TypeError"

fun cn_block_block_dense :: "'a handler" where
  "cn_block_block_dense key val [stage, block, dense_idx, weight_or_bias] =
     bind_err (py_int dense_idx) (\<lambda>di.
     bind_err (subscript_int [(3, 2), (5, 4)] di) (\<lambda>new_idx.
     bind_err (subscript [(''weight'', ''kernel''), (''bias'', ''bias'')] weight_or_bias) (\<lambda>newname.
     bind_err (py_int stage) (\<lambda>st.
     bind_err (if weight_or_bias = ''weight'' then np_transpose val [1, 0] else Inr val) (\<lambda>val'.
     Inr (''stages_'' @ py_str (new_stage st) @ ''/CNBlock_'' @ block @ ''/block/layers_''
            @ py_str new_idx @ ''/'' @ newname, val'))))))"
| "cn_block_block_dense key val groups = Inl TypeError"

fun cn_block_block_norm :: "'a handler" where
  "cn_block_block_norm key val [stage, block, weight_or_bias] =
     bind_err (subscript [(''weight'', ''scale''), (''bias'', ''bias'')] weight_or_bias) (\<lambda>newname.
     bind_err (py_int stage) (\<lambda>st.
     Inr (''stages_'' @ py_str (new_stage st) @ ''/CNBlock_'' @ block @ ''/block/layers_1/''
            @ newname, val)))"
| "cn_block_block_norm key val groups = Inl TypeError"

fun block_projection_norm :: "'a handler" where
  "block_projection_norm key val [layer, weight_or_bias] =
     bind_err (subscript [(''weight'', ''scale''), (''bias'', ''bias'')] weight_or_bias) (\<lambda>newname.
     bind_err (py_int layer) (\<lambda>l.
     Inr (''stages_'' @ py_str (l div 2) @ ''/LayerNorm_0/'' @ newname, val)))"
| "block_projection_norm key val groups = Inl TypeError"

fun block_projection_conv :: "'a handler" where
  "block_projection_conv key val [layer, weight_or_bias] =
     bind_err (subscript [(''weight'', ''kernel''), (''bias'', ''bias'')] weight_or_bias) (\<lambda>newname.
     bind_err (py_int layer) (\<lambda>l.
     bind_err (if weight_or_bias = ''weight'' then transpose_conv_weights val else Inr val) (\<lambda>val'.
     Inr (''stages_'' @ py_str (l div 2) @ ''/Conv_0/'' @ newname, val'))))"
| "block_projection_conv key val groups = Inl TypeError"

fun classifier_norm :: "'a handler" where
  "classifier_norm key val [weight_or_bias] =
     bind_err (subscript [(''weight'', ''scale''), (''bias'', ''bias'')] weight_or_bias) (\<lambda>newname.
     Inr (''classifier/layers_0/'' @ newname, val))"
| "classifier_norm key val groups = Inl TypeError"

fun classifier_dense :: "'a handler" where
  "classifier_dense key val [weight_or_bias] =
     bind_err (subscript [(''weight'', ''kernel''), (''bias'', ''bias'')] weight_or_bias) (\<lambda>newname.
     bind_err (if weight_or_bias = ''weight'' then np_transpose val [1, 0] else Inr val) (\<lambda>val'.
     Inr (''classifier/layers_2/'' @ newname, val')))"
| "classifier_dense key val groups = Inl TypeError"

section \<open>The rule registry\<close>

text \<open>
  Modelled from the spec: the class \<open>CheckpointTranslator\<close> of \<open>jam.utils.checkpoint_utils\<close>,
  whose code is not among the source files.  A pattern rule is a pattern and a handler; a
  registry is the rules in registration order; \<open>add\<close> registers a rule behind the others.
  A rule matches a key when its pattern matches the entire key.
\<close>

record 'a PatternRule =
  pattern :: regex
  handler :: "'a handler"

type_synonym 'a registry = "'a PatternRule list"

definition CheckpointTranslator :: "'a registry" where
  "CheckpointTranslator = []"

definition add :: "regex \<Rightarrow> 'a handler \<Rightarrow> 'a registry \<Rightarrow> 'a registry" where
  "add pat fn reg = reg @ [\<lparr>pattern = pat, handler = fn\<rparr>]"

definition matches :: "'a PatternRule \<Rightarrow> string \<Rightarrow> string list option" where
  "matches rule key = fullmatch (pattern rule) key"

text \<open>
  Modelled from the spec: the dispatch of one entry.  The rules are tried in registration
  order, the first whose pattern matches the full key is used, and its handler is called
  with the key, the tensor and the captured groups.  A key that no rule matches is the
  unmatched-key error, which names the key.
\<close>

fun first_match :: "'a registry \<Rightarrow> string \<Rightarrow> ('a PatternRule \<times> string list) option" where
  "first_match [] key = None"
| "first_match (rule # rules) key =
     (case matches rule key of Some groups \<Rightarrow> Some (rule, groups) | None \<Rightarrow> first_match rules key)"

definition dispatch :: "'a registry \<Rightarrow> string \<Rightarrow> 'a ndarray \<Rightarrow> error + (string \<times> 'a ndarray)" where
  "dispatch reg key val =
     (case first_match reg key of
        None \<Rightarrow> Inl (UnmatchedKeyError key)
      | Some (rule, groups) \<Rightarrow> handler rule key val groups)"

text \<open>
  Modelled from the spec: \<open>apply\<close>.  The entries of the input mapping are translated one
  after the other, in the order of the mapping, and the new entries are collected in that
  order.  The first entry that cannot be translated ends the call with its error; a new
  key that an earlier entry has already produced is the duplicate-target-key error.  The
  mappings are association lists, a Python dictionary being ordered by insertion.
\<close>

fun apply_from ::
  "'a registry \<Rightarrow> (string \<times> 'a ndarray) list \<Rightarrow> (string \<times> 'a ndarray) list
   \<Rightarrow> error + (string \<times> 'a ndarray) list" where
  "apply_from reg result [] = Inr result"
| "apply_from reg result ((key, val) # rest) =
     (case dispatch reg key val of
        Inl e \<Rightarrow> Inl e
      | Inr (new_key, new_val) \<Rightarrow>
          if new_key \<in> set (map fst result) then Inl (DuplicateTargetKeyError new_key)
          else apply_from reg (result @ [(new_key, new_val)]) rest)"

definition apply_state_dict ::
  "'a registry \<Rightarrow> (string \<times> 'a ndarray) list \<Rightarrow> error + (string \<times> 'a ndarray) list" where
  "apply_state_dict reg state_dict = apply_from reg [] state_dict"

text \<open>An entry and its translation, and the number of rules that match a key.\<close>

definition translated :: "'a registry \<Rightarrow> string \<times> 'a ndarray \<Rightarrow> string \<times> 'a ndarray \<Rightarrow> bool" where
  "translated reg entry new = (dispatch reg (fst entry) (snd entry) = Inr new)"

definition match_count :: "'a registry \<Rightarrow> string \<Rightarrow> nat" where
  "match_count reg key = length (filter (\<lambda>rule. matches rule key \<noteq> None) reg)"

text \<open>
  The rule set of the module, in the order of its decorators.  The dots of the source
  patterns are not escaped, so each is the wildcard:
  \<^verbatim>\<open>features.0.0.(weight|bias)\<close>, \<^verbatim>\<open>features.0.1.(weight|bias)\<close>,
  \<^verbatim>\<open>features.(1|3|5|7).(\d+).layer_scale\<close>,
  \<^verbatim>\<open>features.(1|3|5|7).(\d+).block.0.(weight|bias)\<close>,
  \<^verbatim>\<open>features.(1|3|5|7).(\d+).block.(3|5).(weight|bias)\<close>,
  \<^verbatim>\<open>features.(1|3|5|7).(\d+).block.2.(weight|bias)\<close>,
  \<^verbatim>\<open>features.(2|4|6).0.(weight|bias)\<close>, \<^verbatim>\<open>features.(2|4|6).1.(weight|bias)\<close>,
  \<^verbatim>\<open>classifier.0.(weight|bias)\<close>, \<^verbatim>\<open>classifier.2.(weight|bias)\<close>.
\<close>

definition convnext_importer :: "'a registry" where
  "convnext_importer =
     fold (\<lambda>(pat, fn). add pat fn)
       [(lit ''features'' @ [Dot] @ lit ''0'' @ [Dot] @ lit ''0''
           @ [Dot, Alt [''weight'', ''bias'']], initial_conv),
        (lit ''features'' @ [Dot] @ lit ''0'' @ [Dot] @ lit ''1''
           @ [Dot, Alt [''weight'', ''bias'']], initial_norm),
        (lit ''features'' @ [Dot, Alt [''1'', ''3'', ''5'', ''7''], Dot, Digits, Dot]
           @ lit ''layer_scale'', cn_block_layer_scale),
        (lit ''features'' @ [Dot, Alt [''1'', ''3'', ''5'', ''7''], Dot, Digits, Dot]
           @ lit ''block'' @ [Dot] @ lit ''0'' @ [Dot, Alt [''weight'', ''bias'']],
         cn_block_block_conv),
        (lit ''features'' @ [Dot, Alt [''1'', ''3'', ''5'', ''7''], Dot, Digits, Dot]
           @ lit ''block'' @ [Dot, Alt [''3'', ''5''], Dot, Alt [''weight'', ''bias'']],
         cn_block_block_dense),
        (lit ''features'' @ [Dot, Alt [''1'', ''3'', ''5'', ''7''], Dot, Digits, Dot]
           @ lit ''block'' @ [Dot] @ lit ''2'' @ [Dot, Alt [''weight'', ''bias'']],
         cn_block_block_norm),
        (lit ''features'' @ [Dot, Alt [''2'', ''4'', ''6''], Dot] @ lit ''0''
           @ [Dot, Alt [''weight'', ''bias'']], block_projection_norm),
        (lit ''features'' @ [Dot, Alt [''2'', ''4'', ''6''], Dot] @ lit ''1''
           @ [Dot, Alt [''weight'', ''bias'']], block_projection_conv),
        (lit ''classifier'' @ [Dot] @ lit ''0'' @ [Dot, Alt [''weight'', ''bias'']],
         classifier_norm),
        (lit ''classifier'' @ [Dot] @ lit ''2'' @ [Dot, Alt [''weight'', ''bias'']],
         classifier_dense)]
       CheckpointTranslator"


section \<open>The tree reassembler\<close>

text \<open>
  A parameter tree is a tensor or a mapping from path segments to parameter trees.  The
  mapping is a finite map, so that two trees are equal when they hold the same entries,
  as two Python dictionaries are, whatever the order of insertion.
\<close>

datatype 'a tree = Leaf 'a | Node "(string, 'a tree) fmap"

text \<open>
  \<open>key.split(sep)\<close>: the pieces of \<open>key\<close> between the occurrences of \<open>sep\<close>, found from the
  left; \<open>ValueError\<close> for an empty separator.  \<open>cur\<close> holds the piece being read, reversed.
\<close>

fun split_from :: "string \<Rightarrow> string \<Rightarrow> string \<Rightarrow> string list" where
  "split_from sep cur [] = [rev cur]"
| "split_from sep cur (c # s) =
     (if sep \<noteq> [] \<and> startswith (c # s) sep
      then rev cur # split_from sep [] (drop (length sep) (c # s))
      else split_from sep (c # cur) s)"

definition str_split :: "string \<Rightarrow> string \<Rightarrow> error + string list" where
  "str_split s sep = (if sep = [] then Inl ValueError else Inr (split_from sep [] s))"

fun str_join :: "string \<Rightarrow> string list \<Rightarrow> string" where
  "str_join sep [] = []"
| "str_join sep [x] = x"
| "str_join sep (x # y # r) = x @ sep @ str_join sep (y # r)"

text \<open>
  Modelled from the spec: the placing of one tensor, of the tree reassembler \<open>unflatten\<close>
  (\<open>flax.traverse_util.unflatten_dict\<close> in the call of the source; its code is not among the
  source files).  The nested mappings of all segments but the last are walked, and created
  where they are missing, and the tensor is assigned at the last segment.  A segment on the
  way that holds a tensor, or a last segment that holds a sub-tree, is a structural
  conflict.  A path with no segment cannot come from \<open>split\<close>; its last segment would be a
  subscript out of range.
\<close>

fun insert_path ::
  "string list \<Rightarrow> 'a \<Rightarrow> (string, 'a tree) fmap \<Rightarrow> error + (string, 'a tree) fmap" where
  "insert_path [] v m = Inl IndexError"
| "insert_path [k] v m =
     (case fmlookup m k of
        Some (Node sub) \<Rightarrow> Inl StructuralConflictError
      | _ \<Rightarrow> Inr (fmupd k (Leaf v) m))"
| "insert_path (k # ks) v m =
     (case fmlookup m k of
        None \<Rightarrow> bind_err (insert_path ks v fmempty) (\<lambda>sub'. Inr (fmupd k (Node sub') m))
      | Some (Leaf u) \<Rightarrow> Inl StructuralConflictError
      | Some (Node sub) \<Rightarrow> bind_err (insert_path ks v sub) (\<lambda>sub'. Inr (fmupd k (Node sub') m)))"

text \<open>
  Modelled from the spec: \<open>unflatten(mapping, separator)\<close>.  The entries are placed one
  after the other, in the order of the mapping, into a tree that starts empty.
\<close>

fun unflatten_from ::
  "(string, 'a tree) fmap \<Rightarrow> (string \<times> 'a) list \<Rightarrow> string \<Rightarrow> error + (string, 'a tree) fmap" where
  "unflatten_from m [] sep = Inr m"
| "unflatten_from m ((key, v) # rest) sep =
     bind_err (str_split key sep) (\<lambda>path.
     bind_err (insert_path path v m) (\<lambda>m'. unflatten_from m' rest sep))"

definition unflatten :: "(string \<times> 'a) list \<Rightarrow> string \<Rightarrow> error + 'a tree" where
  "unflatten mapping sep = bind_err (unflatten_from fmempty mapping sep) (\<lambda>m. Inr (Node m))"

text \<open>Reading a tree: the sub-tree, the tensor and the mapping at a path.\<close>

fun lookup_path :: "'a tree \<Rightarrow> string list \<Rightarrow> 'a tree option" where
  "lookup_path t [] = Some t"
| "lookup_path (Leaf v) (k # ks) = None"
| "lookup_path (Node m) (k # ks) =
     (case fmlookup m k of None \<Rightarrow> None | Some t \<Rightarrow> lookup_path t ks)"

definition leaf_at :: "'a tree \<Rightarrow> string list \<Rightarrow> 'a option" where
  "leaf_at t p = (case lookup_path t p of Some (Leaf v) \<Rightarrow> Some v | _ \<Rightarrow> None)"

definition node_at :: "'a tree \<Rightarrow> string list \<Rightarrow> bool" where
  "node_at t p = (case lookup_path t p of Some (Node m) \<Rightarrow> True | _ \<Rightarrow> False)"

definition leaf_opt :: "'a tree option \<Rightarrow> string list \<Rightarrow> 'a option" where
  "leaf_opt t q = (case t of None \<Rightarrow> None | Some c \<Rightarrow> leaf_at c q)"

definition node_opt :: "'a tree option \<Rightarrow> string list \<Rightarrow> bool" where
  "node_opt t q = (case t of None \<Rightarrow> False | Some c \<Rightarrow> node_at c q)"

text \<open>
  The paths of a flat mapping, and what makes them fit into one tree: no path is a proper
  prefix of another.
\<close>

definition paths_of :: "string \<Rightarrow> (string \<times> 'a) list \<Rightarrow> (string list \<times> 'a) list" where
  "paths_of sep xs = map (\<lambda>(key, v). (split_from sep [] key, v)) xs"

definition proper_prefix :: "'b list \<Rightarrow> 'b list \<Rightarrow> bool" where
  "proper_prefix q p = (length q < length p \<and> take (length q) p = q)"

definition prefix_free :: "'b list list \<Rightarrow> bool" where
  "prefix_free ps = list_all (\<lambda>p. list_all (\<lambda>q. \<not> proper_prefix p q) ps) ps"

text \<open>
  Three notions used in the proofs only.  \<open>graft\<close> is \<open>insert_path\<close> seen from the slot that
  holds the tree: it takes what the slot holds, if anything, and returns what it holds
  afterwards.  \<open>place\<close> is one step of \<open>unflatten_from\<close> as a function on results.  A path is
  \<open>clear\<close> in a mapping when no tensor lies on the way to it and no sub-tree lies at it.
\<close>

fun graft :: "string list \<Rightarrow> 'a \<Rightarrow> 'a tree option \<Rightarrow> error + 'a tree" where
  "graft [] v t = (case t of Some (Node sub) \<Rightarrow> Inl StructuralConflictError | _ \<Rightarrow> Inr (Leaf v))"
| "graft (k # ks) v t =
     (case t of
        Some (Leaf u) \<Rightarrow> Inl StructuralConflictError
      | None \<Rightarrow> bind_err (graft ks v None) (\<lambda>c. Inr (Node (fmupd k c fmempty)))
      | Some (Node sub) \<Rightarrow>
          bind_err (graft ks v (fmlookup sub k)) (\<lambda>c. Inr (Node (fmupd k c sub))))"

definition place :: "string \<Rightarrow> string \<times> 'a \<Rightarrow> error + (string, 'a tree) fmap
    \<Rightarrow> error + (string, 'a tree) fmap" where
  "place sep entry r =
     bind_err r (\<lambda>m. bind_err (str_split (fst entry) sep) (\<lambda>path. insert_path path (snd entry) m))"

definition clear :: "(string, 'a tree) fmap \<Rightarrow> string list \<Rightarrow> bool" where
  "clear m p = ((\<forall>n<length p. leaf_at (Node m) (take n p) = None) \<and> \<not> node_at (Node m) p)"

section \<open>Loading a checkpoint\<close>

text \<open>
  Modelled from the spec: \<open>checkpoint_utils.as_numpy\<close>, whose code is not among the source
  files.  It turns the tensors of the source framework into plain arrays; shapes and
  elements stay as they are.
\<close>

definition as_numpy :: "(string \<times> 'a ndarray) list \<Rightarrow> (string \<times> 'a ndarray) list" where
  "as_numpy state_dict = state_dict"

text \<open>
  \<open>load_from_torch_checkpoint\<close>: the rule set is applied to the converted state dictionary,
  the result is copied entry by entry, unflattened at \<open>/\<close>, and returned under the key
  \<open>params\<close>.
\<close>

definition load_from_torch_checkpoint ::
  "(string \<times> 'a ndarray) list \<Rightarrow> error + 'a ndarray tree" where
  "load_from_torch_checkpoint state_dict =
     bind_err (apply_state_dict convnext_importer (as_numpy state_dict)) (\<lambda>converted_dict.
     bind_err (unflatten (map (\<lambda>(k, v). (k, v)) converted_dict) ''/'') (\<lambda>tree.
     Inr (Node (fmupd ''params'' tree fmempty))))"

section \<open>Properties\<close>

lemma bind_err_simps [simp]:
  "bind_err (Inl e) f = Inl e" "bind_err (Inr x) f = f x"
  by (simp_all add: bind_err_def)

lemma py_int_1357:
  "py_int ''1'' = Inr 1" "py_int ''3'' = Inr 3" "py_int ''5'' = Inr 5" "py_int ''7'' = Inr 7"
  by (simp_all add: py_int_def strip_def is_space_def is_digit_def nat_of_digits_def
      digit_val_def)

lemma py_str_0123:
  "py_str 0 = ''0''" "py_str 1 = ''1''" "py_str 2 = ''2''" "py_str 3 = ''3''"
  by (simp_all add: py_str_def str_nat.simps)

text \<open>
  Claim C7.  The stage remap is \<open>(stage - 1) // 2\<close> by floor division: it sends the source
  stages 1, 3, 5, 7 to 0, 1, 2, 3, and it is the greatest integer \<open>q\<close> with
  \<open>2 * q \<le> stage - 1\<close>.  Each of the four block handlers (layer scale, convolution, dense
  layer, norm), given the captured stage string \<open>1\<close>, \<open>3\<close>, \<open>5\<close> or \<open>7\<close>, writes the stage
  number 0, 1, 2 or 3 into its target key, whatever the block, the tensor and the other
  groups are.
\<close>

theorem stage_remap:
  "new_stage 1 = 0 \<and> new_stage 3 = 1 \<and> new_stage 5 = 2 \<and> new_stage 7 = 3
   \<and> 2 * new_stage s \<le> s - 1 \<and> s - 1 < 2 * new_stage s + 2
   \<and> cn_block_layer_scale key val [''1'', b]
       = Inr (''stages_0/CNBlock_'' @ b @ ''/layer_scale'', reshape_flat val)
   \<and> cn_block_layer_scale key val [''3'', b]
       = Inr (''stages_1/CNBlock_'' @ b @ ''/layer_scale'', reshape_flat val)
   \<and> cn_block_layer_scale key val [''5'', b]
       = Inr (''stages_2/CNBlock_'' @ b @ ''/layer_scale'', reshape_flat val)
   \<and> cn_block_layer_scale key val [''7'', b]
       = Inr (''stages_3/CNBlock_'' @ b @ ''/layer_scale'', reshape_flat val)
   \<and> cn_block_block_conv key val [''1'', b, wb]
       = bind_err (subscript [(''weight'', ''kernel''), (''bias'', ''bias'')] wb) (\<lambda>newname.
         bind_err (if wb = ''weight'' then transpose_conv_weights val else Inr val) (\<lambda>val'.
         Inr (''stages_0/CNBlock_'' @ b @ ''/block/layers_0/'' @ newname, val')))
   \<and> cn_block_block_conv key val [''3'', b, wb]
       = bind_err (subscript [(''weight'', ''kernel''), (''bias'', ''bias'')] wb) (\<lambda>newname.
         bind_err (if wb = ''weight'' then transpose_conv_weights val else Inr val) (\<lambda>val'.
         Inr (''stages_1/CNBlock_'' @ b @ ''/block/layers_0/'' @ newname, val')))
   \<and> cn_block_block_conv key val [''5'', b, wb]
       = bind_err (subscript [(''weight'', ''kernel''), (''bias'', ''bias'')] wb) (\<lambda>newname.
         bind_err (if wb = ''weight'' then transpose_conv_weights val else Inr val) (\<lambda>val'.
         Inr (''stages_2/CNBlock_'' @ b @ ''/block/layers_0/'' @ newname, val')))
   \<and> cn_block_block_conv key val [''7'', b, wb]
       = bind_err (subscript [(''weight'', ''kernel''), (''bias'', ''bias'')] wb) (\<lambda>newname.
         bind_err (if wb = ''weight'' then transpose_conv_weights val else Inr val) (\<lambda>val'.
         Inr (''stages_3/CNBlock_'' @ b @ ''/block/layers_0/'' @ newname, val')))
   \<and> cn_block_block_dense key val [''1'', b, di, wb]
       = bind_err (py_int di) (\<lambda>d.
         bind_err (subscript_int [(3, 2), (5, 4)] d) (\<lambda>new_idx.
         bind_err (subscript [(''weight'', ''kernel''), (''bias'', ''bias'')] wb) (\<lambda>newname.
         bind_err (if wb = ''weight'' then np_transpose val [1, 0] else Inr val) (\<lambda>val'.
         Inr (''stages_0/CNBlock_'' @ b @ ''/block/layers_'' @ py_str new_idx @ ''/''
                @ newname, val')))))
   \<and> cn_block_block_dense key val [''3'', b, di, wb]
       = bind_err (py_int di) (\<lambda>d.
         bind_err (subscript_int [(3, 2), (5, 4)] d) (\<lambda>new_idx.
         bind_err (subscript [(''weight'', ''kernel''), (''bias'', ''bias'')] wb) (\<lambda>newname.
         bind_err (if wb = ''weight'' then np_transpose val [1, 0] else Inr val) (\<lambda>val'.
         Inr (''stages_1/CNBlock_'' @ b @ ''/block/layers_'' @ py_str new_idx @ ''/''
                @ newname, val')))))
   \<and> cn_block_block_dense key val [''5'', b, di, wb]
       = bind_err (py_int di) (\<lambda>d.
         bind_err (subscript_int [(3, 2), (5, 4)] d) (\<lambda>new_idx.
         bind_err (subscript [(''weight'', ''kernel''), (''bias'', ''bias'')] wb) (\<lambda>newname.
         bind_err (if wb = ''weight'' then np_transpose val [1, 0] else Inr val) (\<lambda>val'.
         Inr (''stages_2/CNBlock_'' @ b @ ''/block/layers_'' @ py_str new_idx @ ''/''
                @ newname, val')))))
   \<and> cn_block_block_dense key val [''7'', b, di, wb]
       = bind_err (py_int di) (\<lambda>d.
         bind_err (subscript_int [(3, 2), (5, 4)] d) (\<lambda>new_idx.
         bind_err (subscript [(''weight'', ''kernel''), (''bias'', ''bias'')] wb) (\<lambda>newname.
         bind_err (if wb = ''weight'' then np_transpose val [1, 0] else Inr val) (\<lambda>val'.
         Inr (''stages_3/CNBlock_'' @ b @ ''/block/layers_'' @ py_str new_idx @ ''/''
                @ newname, val')))))
   \<and> cn_block_block_norm key val [''1'', b, wb]
       = bind_err (subscript [(''weight'', ''scale''), (''bias'', ''bias'')] wb) (\<lambda>newname.
         Inr (''stages_0/CNBlock_'' @ b @ ''/block/layers_1/'' @ newname, val))
   \<and> cn_block_block_norm key val [''3'', b, wb]
       = bind_err (subscript [(''weight'', ''scale''), (''bias'', ''bias'')] wb) (\<lambda>newname.
         Inr (''stages_1/CNBlock_'' @ b @ ''/block/layers_1/'' @ newname, val))
   \<and> cn_block_block_norm key val [''5'', b, wb]
       = bind_err (subscript [(''weight'', ''scale''), (''bias'', ''bias'')] wb) (\<lambda>newname.
         Inr (''stages_2/CNBlock_'' @ b @ ''/block/layers_1/'' @ newname, val))
   \<and> cn_block_block_norm key val [''7'', b, wb]
       = bind_err (subscript [(''weight'', ''scale''), (''bias'', ''bias'')] wb) (\<lambda>newname.
         Inr (''stages_3/CNBlock_'' @ b @ ''/block/layers_1/'' @ newname, val))"
proof -
  have floor: "2 * new_stage s \<le> s - 1 \<and> s - 1 < 2 * new_stage s + 2"
    unfolding new_stage_def by presburger
  have st: "new_stage 1 = 0" "new_stage 3 = 1" "new_stage 5 = 2" "new_stage 7 = 3"
    by (simp_all add: new_stage_def)
  have scale:
    "cn_block_layer_scale key val [''1'', b]
           = Inr (''stages_0/CNBlock_'' @ b @ ''/layer_scale'', reshape_flat val)"
    "cn_block_layer_scale key val [''3'', b]
           = Inr (''stages_1/CNBlock_'' @ b @ ''/layer_scale'', reshape_flat val)"
    "cn_block_layer_scale key val [''5'', b]
           = Inr (''stages_2/CNBlock_'' @ b @ ''/layer_scale'', reshape_flat val)"
    "cn_block_layer_scale key val [''7'', b]
           = Inr (''stages_3/CNBlock_'' @ b @ ''/layer_scale'', reshape_flat val)"
    by (simp_all add: py_int_1357 py_str_0123 st)
  have conv:
    "cn_block_block_conv key val [''1'', b, wb]
           = bind_err (subscript [(''weight'', ''kernel''), (''bias'', ''bias'')] wb) (\<lambda>newname.
             bind_err (if wb = ''weight'' then transpose_conv_weights val else Inr val) (\<lambda>val'.
             Inr (''stages_0/CNBlock_'' @ b @ ''/block/layers_0/'' @ newname, val')))"
    "cn_block_block_conv key val [''3'', b, wb]
           = bind_err (subscript [(''weight'', ''kernel''), (''bias'', ''bias'')] wb) (\<lambda>newname.
             bind_err (if wb = ''weight'' then transpose_conv_weights val else Inr val) (\<lambda>val'.
             Inr (''stages_1/CNBlock_'' @ b @ ''/block/layers_0/'' @ newname, val')))"
    "cn_block_block_conv key val [''5'', b, wb]
           = bind_err (subscript [(''weight'', ''kernel''), (''bias'', ''bias'')] wb) (\<lambda>newname.
             bind_err (if wb = ''weight'' then transpose_conv_weights val else Inr val) (\<lambda>val'.
             Inr (''stages_2/CNBlock_'' @ b @ ''/block/layers_0/'' @ newname, val')))"
    "cn_block_block_conv key val [''7'', b, wb]
           = bind_err (subscript [(''weight'', ''kernel''), (''bias'', ''bias'')] wb) (\<lambda>newname.
             bind_err (if wb = ''weight'' then transpose_conv_weights val else Inr val) (\<lambda>val'.
             Inr (''stages_3/CNBlock_'' @ b @ ''/block/layers_0/'' @ newname, val')))"
    by (simp_all add: py_int_1357 py_str_0123 st)
  have dense:
    "cn_block_block_dense key val [''1'', b, di, wb]
           = bind_err (py_int di) (\<lambda>d.
             bind_err (subscript_int [(3, 2), (5, 4)] d) (\<lambda>new_idx.
             bind_err (subscript [(''weight'', ''kernel''), (''bias'', ''bias'')] wb) (\<lambda>newname.
             bind_err (if wb = ''weight'' then np_transpose val [1, 0] else Inr val) (\<lambda>val'.
             Inr (''stages_0/CNBlock_'' @ b @ ''/block/layers_'' @ py_str new_idx @ ''/''
                    @ newname, val')))))"
    "cn_block_block_dense key val [''3'', b, di, wb]
           = bind_err (py_int di) (\<lambda>d.
             bind_err (subscript_int [(3, 2), (5, 4)] d) (\<lambda>new_idx.
             bind_err (subscript [(''weight'', ''kernel''), (''bias'', ''bias'')] wb) (\<lambda>newname.
             bind_err (if wb = ''weight'' then np_transpose val [1, 0] else Inr val) (\<lambda>val'.
             Inr (''stages_1/CNBlock_'' @ b @ ''/block/layers_'' @ py_str new_idx @ ''/''
                    @ newname, val')))))"
    "cn_block_block_dense key val [''5'', b, di, wb]
           = bind_err (py_int di) (\<lambda>d.
             bind_err (subscript_int [(3, 2), (5, 4)] d) (\<lambda>new_idx.
             bind_err (subscript [(''weight'', ''kernel''), (''bias'', ''bias'')] wb) (\<lambda>newname.
             bind_err (if wb = ''weight'' then np_transpose val [1, 0] else Inr val) (\<lambda>val'.
             Inr (''stages_2/CNBlock_'' @ b @ ''/block/layers_'' @ py_str new_idx @ ''/''
                    @ newname, val')))))"
    "cn_block_block_dense key val [''7'', b, di, wb]
           = bind_err (py_int di) (\<lambda>d.
             bind_err (subscript_int [(3, 2), (5, 4)] d) (\<lambda>new_idx.
             bind_err (subscript [(''weight'', ''kernel''), (''bias'', ''bias'')] wb) (\<lambda>newname.
             bind_err (if wb = ''weight'' then np_transpose val [1, 0] else Inr val) (\<lambda>val'.
             Inr (''stages_3/CNBlock_'' @ b @ ''/block/layers_'' @ py_str new_idx @ ''/''
                    @ newname, val')))))"
    by (simp_all add: py_int_1357 py_str_0123 st)
  have norm:
    "cn_block_block_norm key val [''1'', b, wb]
           = bind_err (subscript [(''weight'', ''scale''), (''bias'', ''bias'')] wb) (\<lambda>newname.
             Inr (''stages_0/CNBlock_'' @ b @ ''/block/layers_1/'' @ newname, val))"
    "cn_block_block_norm key val [''3'', b, wb]
           = bind_err (subscript [(''weight'', ''scale''), (''bias'', ''bias'')] wb) (\<lambda>newname.
             Inr (''stages_1/CNBlock_'' @ b @ ''/block/layers_1/'' @ newname, val))"
    "cn_block_block_norm key val [''5'', b, wb]
           = bind_err (subscript [(''weight'', ''scale''), (''bias'', ''bias'')] wb) (\<lambda>newname.
             Inr (''stages_2/CNBlock_'' @ b @ ''/block/layers_1/'' @ newname, val))"
    "cn_block_block_norm key val [''7'', b, wb]
           = bind_err (subscript [(''weight'', ''scale''), (''bias'', ''bias'')] wb) (\<lambda>newname.
             Inr (''stages_3/CNBlock_'' @ b @ ''/block/layers_1/'' @ newname, val))"
    by (simp_all add: py_int_1357 py_str_0123 st)
  show ?thesis
    by (intro conjI floor [THEN conjunct1] floor [THEN conjunct2] st scale conv dense norm)
qed

subsection \<open>Arrays and their transposes\<close>

lemma length_all_indices: "length (all_indices sh) = prod_list sh"
  by (induction sh) (simp_all add: length_concat comp_def sum_list_triv)

lemma all_indices_valid: "idx \<in> set (all_indices sh) \<Longrightarrow> valid_index sh idx"
  by (induction sh arbitrary: idx) (auto simp: valid_index_def)

lemma valid_all_indices: "valid_index sh idx \<Longrightarrow> idx \<in> set (all_indices sh)"
proof (induction sh arbitrary: idx)
  case Nil
  then show ?case by (simp add: valid_index_def)
next
  case (Cons n sh)
  then obtain i r where idx: "idx = i # r" "i < n" "valid_index sh r"
    by (auto simp: valid_index_def list_all2_Cons2)
  then have "r \<in> set (all_indices sh)" using Cons.IH by simp
  then show ?case using idx by auto
qed

lemma concat_blocks: "concat (map (\<lambda>i. map (\<lambda>j. i * p + j) [0..<p]) [0..<n]) = [0..<n * p]"
proof (induction n)
  case 0
  show ?case by simp
next
  case (Suc n)
  have "map (\<lambda>j. n * p + j) [0..<p] = [n * p..<n * p + p]"
    by (simp add: map_add_upt add.commute)
  with Suc show ?case
    using upt_add_eq_append [of 0 "n * p" p] by (simp add: add.commute)
qed

lemma flat_all_indices: "map (flat_index sh) (all_indices sh) = [0..<prod_list sh]"
proof (induction sh)
  case Nil
  show ?case by simp
next
  case (Cons n sh)
  have "map (flat_index (n # sh)) (all_indices (n # sh))
        = concat (map (\<lambda>i. map (\<lambda>j. i * prod_list sh + j) (map (flat_index sh) (all_indices sh))) [0..<n])"
    by (simp add: map_concat comp_def)
  also have "\<dots> = [0..<n * prod_list sh]"
    unfolding Cons.IH by (rule concat_blocks)
  finally show ?case by simp
qed

lemma nth_all_indices:
  assumes "valid_index sh idx"
  shows "flat_index sh idx < prod_list sh \<and> all_indices sh ! flat_index sh idx = idx"
proof -
  from valid_all_indices [OF assms] obtain k where k: "k < length (all_indices sh)" "all_indices sh ! k = idx"
    by (auto simp: in_set_conv_nth)
  have "flat_index sh idx = map (flat_index sh) (all_indices sh) ! k"
    using k by simp
  also have "\<dots> = k" using k unfolding flat_all_indices by (simp add: length_all_indices)
  finally show ?thesis using k by (simp add: length_all_indices)
qed

lemma item_tabulate:
  "valid_index sh idx \<Longrightarrow> item (NDArray sh (map f (all_indices sh))) idx = f idx"
  using nth_all_indices [of sh idx] by (simp add: item_def length_all_indices)

lemma tabulate_item:
  assumes "wf_array a"
  shows "map (item a) (all_indices (shape a)) = elems a"
proof -
  have "map (item a) (all_indices (shape a)) = map ((!) (elems a)) (map (flat_index (shape a)) (all_indices (shape a)))"
    by (simp add: item_def comp_def)
  also have "\<dots> = elems a"
    using assms unfolding flat_all_indices wf_array_def by (metis map_nth)
  finally show ?thesis .
qed

declare all_indices.simps [simp del]

lemma valid_index4:
  "valid_index [n0, n1, n2, n3] idx \<longleftrightarrow> (\<exists>a b c d. idx = [a, b, c, d] \<and> a < n0 \<and> b < n1 \<and> c < n2 \<and> d < n3)"
  by (auto simp: valid_index_def list_all2_Cons2)

lemma valid_index2:
  "valid_index [n0, n1] idx \<longleftrightarrow> (\<exists>a b. idx = [a, b] \<and> a < n0 \<and> b < n1)"
  by (auto simp: valid_index_def list_all2_Cons2)

text \<open>
  Claim C6.  For every well-formed array of rank 4, the convolution-kernel permutation
  \<open>[2, 3, 1, 0]\<close> succeeds and gives an array of shape \<open>(kh, kw, in, out)\<close>, and
  transposing that array by the reverse permutation \<open>[3, 2, 0, 1]\<close> gives back the
  original array, shape and elements.
\<close>

theorem conv_roundtrip:
  assumes wf: "wf_array w" and rank: "length (shape w) = 4"
  shows "\<exists>u. transpose_conv_weights w = Inr u \<and> np_transpose u [3, 2, 0, 1] = Inr w
     \<and> shape u = [shape w ! 2, shape w ! 3, shape w ! 1, shape w ! 0]"
proof -
  obtain n0 n1 n2 n3 where sh: "shape w = [n0, n1, n2, n3]"
    using rank by (auto simp: length_Suc_conv numeral_eq_Suc)
  define u where "u = NDArray [n2, n3, n1, n0] (map (\<lambda>idx. item w (source_index [2, 3, 1, 0] idx)) (all_indices [n2, n3, n1, n0]))"
  have fwd: "transpose_conv_weights w = Inr u"
    by (simp add: transpose_conv_weights_def np_transpose_def sh u_def Let_def)
  have bwd: "np_transpose u [3, 2, 0, 1] = Inr (NDArray [n0, n1, n2, n3] (map (\<lambda>idx. item u (source_index [3, 2, 0, 1] idx)) (all_indices [n0, n1, n2, n3])))"
    by (simp add: np_transpose_def u_def Let_def)
  have "map (\<lambda>idx. item u (source_index [3, 2, 0, 1] idx)) (all_indices [n0, n1, n2, n3])
        = map (item w) (all_indices [n0, n1, n2, n3])"
  proof (rule map_cong [OF refl])
    fix idx assume "idx \<in> set (all_indices [n0, n1, n2, n3])"
    then obtain a b c d where idx: "idx = [a, b, c, d]" "a < n0" "b < n1" "c < n2" "d < n3"
      using all_indices_valid valid_index4 by blast
    have s1: "source_index [3, 2, 0, 1] idx = [c, d, b, a]"
      by (simp add: source_index_def index_of_def idx upt_rec numeral_eq_Suc)
    have v: "valid_index [n2, n3, n1, n0] [c, d, b, a]"
      using idx by (simp add: valid_index4)
    have s2: "source_index [2, 3, 1, 0] [c, d, b, a] = [a, b, c, d]"
      by (simp add: source_index_def index_of_def upt_rec numeral_eq_Suc)
    show "item u (source_index [3, 2, 0, 1] idx) = item w idx"
      unfolding s1 u_def by (subst item_tabulate [OF v]) (use s2 in \<open>simp add: idx\<close>)
  qed
  then have "np_transpose u [3, 2, 0, 1] = Inr (NDArray (shape w) (map (item w) (all_indices (shape w))))"
    using bwd by (simp add: sh)
  then have "np_transpose u [3, 2, 0, 1] = Inr w"
    by (simp add: tabulate_item [OF wf])
  then show ?thesis using fwd by (simp add: u_def sh)
qed


theorem conv_roundtrip_witness:
  "wf_array (NDArray [2, 1, 1, 2] [1, 2, 3, 4 :: nat])
   \<and> length (shape (NDArray [2, 1, 1, 2] [1, 2, 3, 4 :: nat])) = 4
   \<and> transpose_conv_weights (NDArray [2, 1, 1, 2] [1, 2, 3, 4 :: nat])
       = Inr (NDArray [1, 2, 1, 2] [1, 3, 2, 4])
   \<and> np_transpose (NDArray [1, 2, 1, 2] [1, 3, 2, 4 :: nat]) [3, 2, 0, 1]
       = Inr (NDArray [2, 1, 1, 2] [1, 2, 3, 4])"
proof -
  have w: "wf_array (NDArray [2, 1, 1, 2] [1, 2, 3, 4 :: nat])"
    by (simp add: wf_array_def)
  have r: "length (shape (NDArray [2, 1, 1, 2] [1, 2, 3, 4 :: nat])) = 4"
    by simp
  have f: "transpose_conv_weights (NDArray [2, 1, 1, 2] [1, 2, 3, 4 :: nat])
       = Inr (NDArray [1, 2, 1, 2] [1, 3, 2, 4])"
    by (simp add: transpose_conv_weights_def np_transpose_def Let_def all_indices.simps
        item_def source_index_def index_of_def upt_rec numeral_eq_Suc)
  from conv_roundtrip [OF w r] f w r show ?thesis by auto
qed

text \<open>
  Claim C8.  For every well-formed array of rank 2, transposing by \<open>[1, 0]\<close> succeeds and
  swaps the two axes, and transposing the result by \<open>[1, 0]\<close> again gives back the
  original array.
\<close>

theorem dense_involutive:
  assumes wf: "wf_array a" and rank: "length (shape a) = 2"
  shows "\<exists>u. np_transpose a [1, 0] = Inr u \<and> shape u = [shape a ! 1, shape a ! 0]
     \<and> np_transpose u [1, 0] = Inr a"
proof -
  obtain n0 n1 where sh: "shape a = [n0, n1]"
    using rank by (auto simp: length_Suc_conv numeral_eq_Suc)
  define u where "u = NDArray [n1, n0] (map (\<lambda>idx. item a (source_index [1, 0] idx)) (all_indices [n1, n0]))"
  have fwd: "np_transpose a [1, 0] = Inr u"
    by (simp add: np_transpose_def sh u_def Let_def)
  have bwd: "np_transpose u [1, 0] = Inr (NDArray [n0, n1] (map (\<lambda>idx. item u (source_index [1, 0] idx)) (all_indices [n0, n1])))"
    by (simp add: np_transpose_def u_def Let_def)
  have "map (\<lambda>idx. item u (source_index [1, 0] idx)) (all_indices [n0, n1])
        = map (item a) (all_indices [n0, n1])"
  proof (rule map_cong [OF refl])
    fix idx assume "idx \<in> set (all_indices [n0, n1])"
    then obtain i j where idx: "idx = [i, j]" "i < n0" "j < n1"
      using all_indices_valid valid_index2 by blast
    have s1: "source_index [1, 0] idx = [j, i]"
      by (simp add: source_index_def index_of_def idx upt_rec numeral_eq_Suc)
    have v: "valid_index [n1, n0] [j, i]"
      using idx by (simp add: valid_index2)
    have s2: "source_index [1, 0] [j, i] = [i, j]"
      by (simp add: source_index_def index_of_def upt_rec numeral_eq_Suc)
    show "item u (source_index [1, 0] idx) = item a idx"
      unfolding s1 u_def by (subst item_tabulate [OF v]) (use s2 in \<open>simp add: idx\<close>)
  qed
  then have "np_transpose u [1, 0] = Inr (NDArray (shape a) (map (item a) (all_indices (shape a))))"
    using bwd by (simp add: sh)
  then have "np_transpose u [1, 0] = Inr a"
    by (simp add: tabulate_item [OF wf])
  then show ?thesis using fwd by (simp add: u_def sh)
qed

theorem dense_involutive_witness:
  "wf_array (NDArray [2, 3] [1, 2, 3, 4, 5, 6 :: nat])
   \<and> length (shape (NDArray [2, 3] [1, 2, 3, 4, 5, 6 :: nat])) = 2
   \<and> np_transpose (NDArray [2, 3] [1, 2, 3, 4, 5, 6 :: nat]) [1, 0]
       = Inr (NDArray [3, 2] [1, 4, 2, 5, 3, 6])
   \<and> np_transpose (NDArray [3, 2] [1, 4, 2, 5, 3, 6 :: nat]) [1, 0]
       = Inr (NDArray [2, 3] [1, 2, 3, 4, 5, 6])"
proof -
  have w: "wf_array (NDArray [2, 3] [1, 2, 3, 4, 5, 6 :: nat])"
    by (simp add: wf_array_def)
  have r: "length (shape (NDArray [2, 3] [1, 2, 3, 4, 5, 6 :: nat])) = 2"
    by simp
  have f: "np_transpose (NDArray [2, 3] [1, 2, 3, 4, 5, 6 :: nat]) [1, 0]
       = Inr (NDArray [3, 2] [1, 4, 2, 5, 3, 6])"
    by (simp add: np_transpose_def Let_def all_indices.simps
        item_def source_index_def index_of_def upt_rec numeral_eq_Suc)
  from dense_involutive [OF w r] f w r show ?thesis by auto
qed

text \<open>
  Claim C9.  On every array whose rank is not 4 the convolution-kernel transform fails
  with numpy's \<open>ValueError\<close> for axes that do not match the array; it returns no result.
\<close>

theorem conv_rank_error:
  "length (shape w) \<noteq> 4 \<Longrightarrow> transpose_conv_weights w = Inl ValueError"
  by (simp add: transpose_conv_weights_def np_transpose_def)

theorem conv_rank_error_witness:
  "length (shape (NDArray [2, 3] [1, 2, 3, 4, 5, 6 :: nat])) \<noteq> 4
   \<and> transpose_conv_weights (NDArray [2, 3] [1, 2, 3, 4, 5, 6 :: nat]) = Inl ValueError"
  using conv_rank_error [of "NDArray [2, 3] [1, 2, 3, 4, 5, 6 :: nat]"] by simp

subsection \<open>Matching\<close>

lemma first_some_map_Some:
  "first_some (map f xs) = Some y \<Longrightarrow> \<exists>x\<in>set xs. f x = Some y"
  by (induction xs) (auto split: option.splits elim: first_some.elims)

lemma first_some_map_None:
  "first_some (map f xs) = None \<longleftrightarrow> (\<forall>x\<in>set xs. f x = None)"
  by (induction xs) (auto split: option.splits elim: first_some.elims)

lemma fullmatch_spans: "fullmatch p s = Some gs \<Longrightarrow> spans p s gs"
proof (induction p arbitrary: s gs)
  case Nil
  then show ?case by (auto split: if_splits)
next
  case (Cons t p)
  show ?case
  proof (cases t)
    case (Chr c)
    with Cons show ?thesis by (auto split: list.splits if_splits)
  next
    case Dot
    with Cons show ?thesis by (auto split: list.splits if_splits)
  next
    case (Alt alts)
    with Cons.prems obtain a where a: "a \<in> set alts" "startswith s a"
      "map_option ((#) a) (fullmatch p (drop (length a) s)) = Some gs"
      by (auto dest!: first_some_map_Some split: if_splits)
    then obtain gs' where "gs = a # gs'" "fullmatch p (drop (length a) s) = Some gs'"
      by auto
    with a Cons.IH Alt show ?thesis by simp
  next
    case Digits
    with Cons.prems obtain k where k: "1 \<le> k" "k \<le> length (takeWhile is_digit s)"
      "map_option ((#) (take k s)) (fullmatch p (drop k s)) = Some gs"
      by (auto dest!: first_some_map_Some)
    then obtain gs' where gs: "gs = take k s # gs'" "fullmatch p (drop k s) = Some gs'"
      by auto
    have len: "length (take k s) = k"
      using k(2) length_takeWhile_le [of is_digit s] by simp
    have "take k s = take k (takeWhile is_digit s)"
      using k(2) by (metis takeWhile_dropWhile_id take_append diff_is_0_eq take_0 append_Nil2)
    then have "list_all is_digit (take k s)"
      by (metis list_all_iff in_set_takeD set_takeWhileD)
    with k gs len Cons.IH Digits show ?thesis
      by (auto simp: startswith_def)
  qed
qed

lemma spans_fullmatch: "spans p s gs \<Longrightarrow> fullmatch p s \<noteq> None"
proof (induction p arbitrary: s gs)
  case Nil
  then show ?case by auto
next
  case (Cons t p)
  show ?case
  proof (cases t)
    case (Chr c)
    with Cons show ?thesis by (auto split: list.splits)
  next
    case Dot
    with Cons show ?thesis by (auto split: list.splits)
  next
    case (Alt alts)
    with Cons.prems obtain g gs' where g: "gs = g # gs'" "g \<in> set alts" "startswith s g"
      "spans p (drop (length g) s) gs'"
      by (auto split: list.splits)
    with Cons.IH have "fullmatch p (drop (length g) s) \<noteq> None" by blast
    with g Alt show ?thesis
      by (auto simp: first_some_map_None)
  next
    case Digits
    with Cons.prems obtain g gs' where g: "gs = g # gs'" "g \<noteq> []" "list_all is_digit g"
      "startswith s g" "spans p (drop (length g) s) gs'"
      by (auto split: list.splits)
    with Cons.IH have m: "fullmatch p (drop (length g) s) \<noteq> None" by blast
    have s: "s = g @ drop (length g) s"
      using g(4) by (metis startswith_def append_take_drop_id)
    have "takeWhile is_digit s = g @ takeWhile is_digit (drop (length g) s)"
      by (subst s) (use g(3) in \<open>simp add: takeWhile_append2 list_all_iff\<close>)
    then have "length g \<le> length (takeWhile is_digit s)" by simp
    moreover have "1 \<le> length g" using g(2) by (cases g) auto
    ultimately have mem: "length g \<in> set (rev [1..<Suc (length (takeWhile is_digit s))])"
      by auto
    show ?thesis
    proof
      assume "fullmatch (t # p) s = None"
      then have "\<forall>k\<in>set (rev [1..<Suc (length (takeWhile is_digit s))]).
                   map_option ((#) (take k s)) (fullmatch p (drop k s)) = None"
        unfolding Digits fullmatch.simps first_some_map_None .
      with mem have "map_option ((#) (take (length g) s)) (fullmatch p (drop (length g) s)) = None"
        by blast
      with m show False by simp
    qed
  qed
qed

lemma first_match_Some:
  "first_match reg key = Some (rule, groups) \<Longrightarrow>
   \<exists>j<length reg. rule = reg ! j \<and> matches (reg ! j) key = Some groups
      \<and> (\<forall>j'<j. matches (reg ! j') key = None)"
proof (induction reg)
  case Nil
  then show ?case by simp
next
  case (Cons r reg)
  show ?case
  proof (cases "matches r key")
    case None
    with Cons obtain j where "j < length reg" "rule = reg ! j" "matches (reg ! j) key = Some groups"
      "\<forall>j'<j. matches (reg ! j') key = None" by auto
    with None show ?thesis
      by (intro exI [of _ "Suc j"]) (auto simp: less_Suc_eq_0_disj)
  next
    case (Some gs)
    with Cons.prems show ?thesis by (intro exI [of _ 0]) auto
  qed
qed

lemma first_match_None:
  "first_match reg key = None \<longleftrightarrow> (\<forall>rule\<in>set reg. matches rule key = None)"
  by (induction reg) (auto split: option.splits)

subsection \<open>Dispatch and \<open>apply\<close>\<close>

lemma apply_from_Inr:
  "apply_from reg acc sd = Inr out \<Longrightarrow>
   \<exists>news. out = acc @ news \<and> list_all2 (translated reg) sd news
      \<and> (distinct (map fst acc) \<longrightarrow> distinct (map fst out))"
proof (induction sd arbitrary: acc)
  case Nil
  then show ?case by simp
next
  case (Cons entry sd)
  obtain key val where entry: "entry = (key, val)" by (cases entry)
  from Cons.prems obtain nk nv where d: "dispatch reg key val = Inr (nk, nv)"
    and fresh: "nk \<notin> set (map fst acc)"
    and rest: "apply_from reg (acc @ [(nk, nv)]) sd = Inr out"
    by (auto simp: entry split: sum.splits if_splits)
  from Cons.IH [OF rest] obtain news where news: "out = (acc @ [(nk, nv)]) @ news"
    "list_all2 (translated reg) sd news"
    "distinct (map fst (acc @ [(nk, nv)])) \<longrightarrow> distinct (map fst out)"
    by blast
  show ?case
  proof (intro exI [of _ "(nk, nv) # news"] conjI impI)
    show "out = acc @ (nk, nv) # news" using news(1) by simp
    show "list_all2 (translated reg) (entry # sd) ((nk, nv) # news)"
      using news(2) d by (simp add: entry translated_def)
    assume "distinct (map fst acc)"
    with fresh news(3) show "distinct (map fst out)" by simp
  qed
qed


lemma apply_Inr:
  assumes "apply_state_dict reg sd = Inr out"
  shows "list_all2 (translated reg) sd out" and "distinct (map fst out)"
  using apply_from_Inr [of reg "[]" sd out] assms by (auto simp: apply_state_dict_def)

lemma dispatch_cases:
  "(first_match reg key = None \<and> (\<forall>rule\<in>set reg. matches rule key = None)
      \<and> dispatch reg key val = Inl (UnmatchedKeyError key))
   \<or> (\<exists>j groups. j < length reg \<and> matches (reg ! j) key = Some groups
         \<and> spans (pattern (reg ! j)) key groups
         \<and> (\<forall>j'<j. matches (reg ! j') key = None)
         \<and> dispatch reg key val = handler (reg ! j) key val groups)"
proof (cases "first_match reg key")
  case None
  then have "\<forall>rule\<in>set reg. matches rule key = None"
    by (simp add: first_match_None)
  with None show ?thesis by (simp add: dispatch_def)
next
  case (Some m)
  obtain rule groups where m: "m = (rule, groups)" by (cases m)
  from first_match_Some [OF Some [unfolded m]] obtain j where j: "j < length reg" "rule = reg ! j"
    "matches (reg ! j) key = Some groups" "\<forall>j'<j. matches (reg ! j') key = None" by blast
  moreover have "spans (pattern (reg ! j)) key groups"
    using j(3) by (simp add: matches_def fullmatch_spans)
  moreover have "dispatch reg key val = handler (reg ! j) key val groups"
    using Some m j(2) by (simp add: dispatch_def)
  ultimately show ?thesis by blast
qed

text \<open>
  Claim C2.  The handler invoked for a key is that of the first rule, in registration
  order, whose pattern matches the entire key: no earlier rule matches, the match spans
  the key from its first character to its last, and the handler receives the key, the
  tensor and the captured groups in order; with no matching rule the dispatch is the
  unmatched-key error.  Every entry that \<open>apply\<close> collects is the result of that dispatch
  on the entry at the same position of the input.
\<close>

theorem apply_first_match:
  "((\<forall>rule\<in>set reg. matches rule key = None)
      \<and> dispatch reg key val = Inl (UnmatchedKeyError key)
    \<or> (\<exists>j groups. j < length reg \<and> matches (reg ! j) key = Some groups
         \<and> spans (pattern (reg ! j)) key groups
         \<and> (\<forall>j'<j. matches (reg ! j') key = None)
         \<and> dispatch reg key val = handler (reg ! j) key val groups))
   \<and> (apply_state_dict reg sd = Inr out \<longrightarrow>
        length out = length sd
        \<and> (\<forall>i<length sd. dispatch reg (fst (sd ! i)) (snd (sd ! i)) = Inr (out ! i)))"
proof (intro conjI impI)
  show "(\<forall>rule\<in>set reg. matches rule key = None)
      \<and> dispatch reg key val = Inl (UnmatchedKeyError key)
    \<or> (\<exists>j groups. j < length reg \<and> matches (reg ! j) key = Some groups
         \<and> spans (pattern (reg ! j)) key groups
         \<and> (\<forall>j'<j. matches (reg ! j') key = None)
         \<and> dispatch reg key val = handler (reg ! j) key val groups)"
    using dispatch_cases [of reg key val] by blast
next
  assume a: "apply_state_dict reg sd = Inr out"
  from apply_Inr(1) [OF a] show "length out = length sd"
    by (simp add: list_all2_lengthD)
  from apply_Inr(1) [OF a]
  show "\<forall>i<length sd. dispatch reg (fst (sd ! i)) (snd (sd ! i)) = Inr (out ! i)"
    by (simp add: list_all2_conv_all_nth translated_def)
qed

theorem apply_first_match_witness:
  "matches ((convnext_importer :: nat registry) ! 0) ''features.0.0.weight'' = Some [''weight'']
   \<and> dispatch convnext_importer ''features.0.0.weight'' (NDArray [2, 1, 1, 2] [1, 2, 3, 4 :: nat])
       = initial_conv ''features.0.0.weight'' (NDArray [2, 1, 1, 2] [1, 2, 3, 4]) [''weight'']
   \<and> apply_state_dict convnext_importer
        [(''features.0.0.weight'', NDArray [2, 1, 1, 2] [1, 2, 3, 4 :: nat]),
         (''features.3.12.block.3.weight'', NDArray [2, 3] [1, 2, 3, 4, 5, 6])]
       = Inr [(''stem/layers_0/kernel'', NDArray [1, 2, 1, 2] [1, 3, 2, 4]),
              (''stages_1/CNBlock_12/block/layers_2/kernel'', NDArray [3, 2] [1, 4, 2, 5, 3, 6])]
   \<and> length [(''stem/layers_0/kernel'', NDArray [1, 2, 1, 2] [1, 3, 2, 4 :: nat]),
              (''stages_1/CNBlock_12/block/layers_2/kernel'', NDArray [3, 2] [1, 4, 2, 5, 3, 6])]
       = length [(''features.0.0.weight'', NDArray [2, 1, 1, 2] [1, 2, 3, 4 :: nat]),
                 (''features.3.12.block.3.weight'', NDArray [2, 3] [1, 2, 3, 4, 5, 6])]"
proof -
  let ?sd = "[(''features.0.0.weight'', NDArray [2, 1, 1, 2] [1, 2, 3, 4 :: nat]),
         (''features.3.12.block.3.weight'', NDArray [2, 3] [1, 2, 3, 4, 5, 6])]"
  let ?out = "[(''stem/layers_0/kernel'', NDArray [1, 2, 1, 2] [1, 3, 2, 4 :: nat]),
              (''stages_1/CNBlock_12/block/layers_2/kernel'', NDArray [3, 2] [1, 4, 2, 5, 3, 6])]"
  have m: "matches ((convnext_importer :: nat registry) ! 0) ''features.0.0.weight''
           = Some [''weight'']"
    by code_simp
  have d: "dispatch convnext_importer ''features.0.0.weight'' (NDArray [2, 1, 1, 2] [1, 2, 3, 4 :: nat])
       = initial_conv ''features.0.0.weight'' (NDArray [2, 1, 1, 2] [1, 2, 3, 4]) [''weight'']"
    by code_simp
  have a: "apply_state_dict convnext_importer ?sd = Inr ?out"
    by code_simp
  from apply_first_match [of convnext_importer "''features.0.0.weight''"
      "NDArray [2, 1, 1, 2] [1, 2, 3, 4 :: nat]" ?sd ?out] a
  have "length ?out = length ?sd" by blast
  with m d a show ?thesis by blast
qed

lemma apply_Inr_nth:
  assumes "apply_state_dict reg sd = Inr out"
  shows "length out = length sd"
    and "\<forall>i<length sd. dispatch reg (fst (sd ! i)) (snd (sd ! i)) = Inr (out ! i)"
  using apply_Inr(1) [OF assms]
  by (simp_all add: list_all2_conv_all_nth translated_def)








lemma apply_from_all_translated:
  assumes "list_all2 (translated reg) sd news"
  shows "(distinct (map fst news) \<and> fst ` set news \<inter> fst ` set acc = {}
            \<and> apply_from reg acc sd = Inr (acc @ news))
       \<or> (\<not> (distinct (map fst news) \<and> fst ` set news \<inter> fst ` set acc = {})
            \<and> (\<exists>k. apply_from reg acc sd = Inl (DuplicateTargetKeyError k)))"
  using assms
proof (induction sd news arbitrary: acc rule: list_all2_induct)
  case Nil
  show ?case by simp
next
  case (Cons entry sd new news)
  obtain key val where entry: "entry = (key, val)" by (cases entry)
  obtain nk nv where new: "new = (nk, nv)" by (cases new)
  from Cons.hyps(1) have d: "dispatch reg key val = Inr (nk, nv)"
    by (simp add: translated_def entry new)
  show ?case
  proof (cases "nk \<in> fst ` set acc")
    case True
    with d show ?thesis by (auto simp: entry new)
  next
    case False
    with d have step: "apply_from reg acc (entry # sd) = apply_from reg (acc @ [(nk, nv)]) sd"
      by (simp add: entry)
    from Cons.IH [of "acc @ [(nk, nv)]"] False show ?thesis
      unfolding step new by (auto simp: image_Un)
  qed
qed




subsection \<open>Placing a tensor in a tree\<close>

lemma insert_path_error:
  "insert_path p v m = Inl e \<Longrightarrow> p \<noteq> [] \<Longrightarrow> e = StructuralConflictError"
proof (induction p v m rule: insert_path.induct)
  case (1 v m)
  then show ?case by simp
next
  case (2 k v m)
  then show ?case by (auto split: option.splits tree.splits)
next
  case (3 k k' ks v m)
  then show ?case
    by (auto simp: bind_err_def split: option.splits tree.splits sum.splits)
qed

lemma insert_path_empty_ok:
  "p \<noteq> [] \<Longrightarrow> \<exists>m'. insert_path p v fmempty = Inr m'"
proof (induction p)
  case Nil
  then show ?case by simp
next
  case (Cons k ks)
  then show ?case by (cases ks) (auto simp: bind_err_def)
qed

lemma insert_path_graft:
  "insert_path (k # ks) v m = bind_err (graft ks v (fmlookup m k)) (\<lambda>c. Inr (fmupd k c m))"
proof (induction ks arbitrary: k m)
  case Nil
  show ?case by (simp add: bind_err_def split: option.splits tree.splits)
next
  case (Cons k' ks)
  show ?case
    by (simp add: Cons.IH bind_err_def split: option.splits tree.splits sum.splits)
qed

lemma graft_error: "graft ks v t = Inl e \<Longrightarrow> e = StructuralConflictError"
  by (induction ks arbitrary: t e)
     (auto simp: bind_err_def split: option.splits tree.splits sum.splits)

lemma bind_err_assoc:
  "bind_err (bind_err a f) g = bind_err a (\<lambda>x. bind_err (f x) g)"
  by (cases a) simp_all

lemma bind_err_commute:
  assumes "\<And>e. a = Inl e \<Longrightarrow> e = StructuralConflictError"
    and "\<And>e. b = Inl e \<Longrightarrow> e = StructuralConflictError"
    and "\<And>x y. a = Inr x \<Longrightarrow> b = Inr y \<Longrightarrow> f x y = g y x"
  shows "bind_err a (\<lambda>x. bind_err b (\<lambda>y. f x y)) = bind_err b (\<lambda>y. bind_err a (\<lambda>x. g y x))"
  using assms by (cases a; cases b) (auto simp: bind_err_def)

lemma graft_commute:
  "ks \<noteq> ks' \<Longrightarrow>
   bind_err (graft ks v t) (\<lambda>c. graft ks' w (Some c))
   = bind_err (graft ks' w t) (\<lambda>c. graft ks v (Some c))"
proof (induction ks arbitrary: ks' t)
  case Nil
  then obtain k' r where ks': "ks' = k' # r" by (cases ks') auto
  show ?case
  proof (cases "graft ks' w t")
    case (Inl e)
    with graft_error [OF Inl] show ?thesis
      by (auto simp: bind_err_def ks' split: option.splits tree.splits)
  next
    case (Inr c)
    then obtain sub where "c = Node sub"
      by (auto simp: ks' bind_err_def split: option.splits tree.splits sum.splits)
    with Inr show ?thesis
      by (auto simp: bind_err_def ks' split: option.splits tree.splits)
  qed
next
  case (Cons k r)
  show ?case
  proof (cases ks')
    case Nil
    show ?thesis
    proof (cases "graft (k # r) v t")
      case (Inl e)
      with graft_error [OF Inl] show ?thesis
        by (auto simp: bind_err_def Nil split: option.splits tree.splits)
    next
      case (Inr c)
      then obtain sub where "c = Node sub"
        by (auto simp: bind_err_def split: option.splits tree.splits sum.splits)
      with Inr show ?thesis
        by (auto simp: bind_err_def Nil split: option.splits tree.splits)
    qed
  next
    case ks': (Cons k' r')
    have main: "bind_err (graft r v (fmlookup sub k)) (\<lambda>c. graft (k' # r') w (Some (Node (fmupd k c sub))))
        = bind_err (graft r' w (fmlookup sub k')) (\<lambda>c. graft (k # r) v (Some (Node (fmupd k' c sub))))"
      for sub
    proof (cases "k = k'")
      case True
      with Cons.prems ks' have "r \<noteq> r'" by simp
      from Cons.IH [OF this, of "fmlookup sub k"]
      have "bind_err (bind_err (graft r v (fmlookup sub k)) (\<lambda>c. graft r' w (Some c)))
              (\<lambda>c. Inr (Node (fmupd k c sub)))
          = bind_err (bind_err (graft r' w (fmlookup sub k)) (\<lambda>c. graft r v (Some c)))
              (\<lambda>c. Inr (Node (fmupd k c sub)))"
        by simp
      then show ?thesis
        by (simp add: True bind_err_assoc)
    next
      case False
      then show ?thesis
        apply simp
        apply (rule bind_err_commute)
          apply (erule graft_error)
         apply (erule graft_error)
        apply (simp add: fmupd_reorder_neq)
        done
    qed
    show ?thesis
    proof (cases t)
      case None
      from main [of fmempty] show ?thesis by (simp add: None ks' bind_err_assoc)
    next
      case (Some c)
      show ?thesis
      proof (cases c)
        case (Leaf u)
        then show ?thesis by (simp add: Some ks')
      next
        case (Node sub)
        from main [of sub] show ?thesis by (simp add: Some Node ks' bind_err_assoc)
      qed
    qed
  qed
qed

lemma split_from_nonempty: "split_from sep cur s \<noteq> []"
  by (induction sep cur s rule: split_from.induct) auto

lemma str_join_Cons: "r \<noteq> [] \<Longrightarrow> str_join sep (x # r) = x @ sep @ str_join sep r"
  by (cases r) auto

lemma join_split_from: "str_join sep (split_from sep cur s) = rev cur @ s"
proof (induction sep cur s rule: split_from.induct)
  case (1 sep cur)
  show ?case by simp
next
  case (2 sep cur c s)
  show ?case
  proof (cases "sep \<noteq> [] \<and> startswith (c # s) sep")
    case True
    then have "c # s = sep @ drop (length sep) (c # s)"
      by (metis startswith_def append_take_drop_id)
    with True 2(1) show ?thesis
      by (simp add: str_join_Cons split_from_nonempty del: drop_Suc_Cons)
  next
    case False
    with 2(2) show ?thesis by auto
  qed
qed

lemma str_split_inject:
  "str_split a sep = Inr p \<Longrightarrow> str_split b sep = Inr p \<Longrightarrow> a = b"
  using join_split_from [of sep "[]" a] join_split_from [of sep "[]" b]
  by (auto simp: str_split_def split: if_splits)

lemma str_split_nonempty: "str_split a sep = Inr p \<Longrightarrow> p \<noteq> []"
  by (auto simp: str_split_def split_from_nonempty split: if_splits)

lemma graft_node:
  "p \<noteq> [] \<Longrightarrow> graft p v (Some (Node m)) = bind_err (insert_path p v m) (\<lambda>m'. Inr (Node m'))"
  by (cases p) (simp_all add: insert_path_graft bind_err_assoc)

lemma bind_node_inject:
  "bind_err a (\<lambda>m. Inr (Node m)) = bind_err b (\<lambda>m. Inr (Node m)) \<Longrightarrow> a = b"
  by (cases a; cases b) simp_all

lemma insert_path_commute:
  assumes "p \<noteq> q" "p \<noteq> []" "q \<noteq> []"
  shows "bind_err (insert_path p v m) (insert_path q w)
       = bind_err (insert_path q w m) (insert_path p v)"
proof -
  have "bind_err (bind_err (insert_path p v m) (insert_path q w)) (\<lambda>m. Inr (Node m))
      = bind_err (graft p v (Some (Node m))) (\<lambda>c. graft q w (Some c))"
    by (simp add: graft_node assms bind_err_assoc)
  also have "\<dots> = bind_err (graft q w (Some (Node m))) (\<lambda>c. graft p v (Some c))"
    by (rule graft_commute [OF assms(1)])
  also have "\<dots> = bind_err (bind_err (insert_path q w m) (insert_path p v)) (\<lambda>m. Inr (Node m))"
    by (simp add: graft_node assms bind_err_assoc)
  finally show ?thesis by (rule bind_node_inject)
qed

lemma fold_place_Inl: "fold (place sep) xs (Inl e) = Inl e"
  by (induction xs) (simp_all add: place_def)

lemma unflatten_from_fold: "unflatten_from m xs sep = fold (place sep) xs (Inr m)"
proof (induction xs arbitrary: m)
  case Nil
  show ?case by simp
next
  case (Cons x xs)
  obtain key v where x: "x = (key, v)" by (cases x)
  show ?case
  proof (cases "str_split key sep")
    case (Inl e)
    then have "place sep x (Inr m) = Inl e" by (simp add: place_def x)
    with Inl show ?thesis by (simp add: x fold_place_Inl)
  next
    case (Inr path)
    show ?thesis
    proof (cases "insert_path path v m")
      case (Inl e)
      with Inr have "place sep x (Inr m) = Inl e" by (simp add: place_def x)
      with Inl Inr show ?thesis by (simp add: x fold_place_Inl)
    next
      case m': (Inr m')
      with Inr have "place sep x (Inr m) = Inr m'" by (simp add: place_def x)
      with m' Inr show ?thesis by (simp add: x Cons.IH)
    qed
  qed
qed

lemma place_commute:
  assumes "fst x \<noteq> fst y"
  shows "place sep x (place sep y r) = place sep y (place sep x r)"
proof (cases r)
  case (Inl e)
  then show ?thesis by (simp add: place_def)
next
  case (Inr m)
  show ?thesis
  proof (cases "sep = []")
    case True
    then show ?thesis by (simp add: place_def Inr str_split_def)
  next
    case False
    define p where "p = split_from sep [] (fst x)"
    define q where "q = split_from sep [] (fst y)"
    have sp: "str_split (fst x) sep = Inr p" "str_split (fst y) sep = Inr q"
      using False by (simp_all add: str_split_def p_def q_def)
    have "p \<noteq> q" using sp assms str_split_inject by metis
    moreover have "p \<noteq> []" "q \<noteq> []" using sp str_split_nonempty by blast+
    ultimately show ?thesis
      using insert_path_commute [of q p "snd y" m "snd x"]
      by (simp add: place_def Inr sp)
  qed
qed

lemma unflatten_permuted:
  assumes "distinct (map fst xs)" and "mset xs = mset ys"
  shows "unflatten xs sep = unflatten ys sep"
proof -
  have "fold (place sep) xs = fold (place sep) ys"
  proof (rule fold_multiset_equiv [OF _ assms(2)])
    fix x y assume "x \<in> set xs" "y \<in> set xs"
    show "place sep x \<circ> place sep y = place sep y \<circ> place sep x"
    proof (cases "x = y")
      case True
      then show ?thesis by simp
    next
      case False
      with \<open>x \<in> set xs\<close> \<open>y \<in> set xs\<close> assms(1) have "fst x \<noteq> fst y"
        by (meson distinct_map inj_onD)
      then show ?thesis by (auto simp: fun_eq_iff place_commute)
    qed
  qed
  then show ?thesis by (simp add: unflatten_def unflatten_from_fold)
qed

lemma leaf_at_simps [simp]:
  "leaf_at (Leaf v) [] = Some v"
  "leaf_at (Node m) [] = None"
  "leaf_at (Leaf v) (k # ks) = None"
  "leaf_at (Node m) (k # ks) = (case fmlookup m k of None \<Rightarrow> None | Some t \<Rightarrow> leaf_at t ks)"
  by (simp_all add: leaf_at_def split: option.splits)

lemma leaf_opt_simps [simp]:
  "leaf_opt None q = None" "leaf_opt (Some c) q = leaf_at c q"
  by (simp_all add: leaf_opt_def)

lemma leaf_at_graft:
  "graft ks v t = Inr c \<Longrightarrow> leaf_at c q = (if q = ks then Some v else leaf_opt t q)"
proof (induction ks arbitrary: t c q)
  case Nil
  then show ?case
    by (cases q) (auto split: option.splits tree.splits)
next
  case (Cons k r)
  show ?case
  proof (cases t)
    case None
    with Cons.prems obtain c' where c': "graft r v None = Inr c'" "c = Node (fmupd k c' fmempty)"
      by (cases "graft r v None") auto
    from Cons.IH [OF c'(1)] show ?thesis
      by (cases q) (auto simp: c' None)
  next
    case (Some t')
    with Cons.prems obtain sub c' where c': "t' = Node sub" "graft r v (fmlookup sub k) = Inr c'"
      "c = Node (fmupd k c' sub)"
      by (cases t'; cases "graft r v (fmlookup (case t' of Node s \<Rightarrow> s) k)") auto
    from Cons.IH [OF c'(2)] show ?thesis
      by (cases q) (auto simp: c' Some leaf_opt_def split: option.splits)
  qed
qed

lemma leaf_at_insert_path:
  assumes "insert_path p v m = Inr m'"
  shows "leaf_at (Node m') q = (if q = p then Some v else leaf_at (Node m) q)"
proof -
  from assms have "p \<noteq> []" by auto
  with assms have "graft p v (Some (Node m)) = Inr (Node m')" by (simp add: graft_node)
  from leaf_at_graft [OF this] show ?thesis by simp
qed

lemma leaf_at_empty [simp]: "leaf_at (Node fmempty) q = None"
  by (cases q) simp_all

lemma leaf_at_unflatten_from:
  "unflatten_from m xs sep = Inr m' \<Longrightarrow>
   leaf_at (Node m') q
   = (case map_of (rev (paths_of sep xs)) q of Some v \<Rightarrow> Some v | None \<Rightarrow> leaf_at (Node m) q)"
proof (induction xs arbitrary: m)
  case Nil
  then show ?case by (simp add: paths_of_def)
next
  case (Cons x xs)
  obtain key v where x: "x = (key, v)" by (cases x)
  from Cons.prems obtain m1 where sep: "sep \<noteq> []"
    and m1: "insert_path (split_from sep [] key) v m = Inr m1"
    and rest: "unflatten_from m1 xs sep = Inr m'"
    by (cases "insert_path (split_from sep [] key) v m")
       (auto simp: x str_split_def split: if_splits)
  show ?case
    unfolding Cons.IH [OF rest] leaf_at_insert_path [OF m1]
    by (auto simp: paths_of_def x map_add_def split: option.splits)
qed

lemma map_of_rev_distinct: "distinct (map fst xs) \<Longrightarrow> map_of (rev xs) = map_of xs"
proof (induction xs)
  case Nil
  show ?case by simp
next
  case (Cons x xs)
  then have "map_of (rev xs) (fst x) = None"
    by (simp add: map_of_eq_None_iff)
  with Cons show ?case
    by (cases x) (auto simp: fun_eq_iff map_add_def split: option.splits)
qed

lemma leaf_at_unflatten:
  assumes "unflatten xs sep = Inr t" and "distinct (map fst xs)"
  shows "leaf_at t = map_of (paths_of sep xs)"
proof -
  from assms(1) obtain m' where m': "unflatten_from fmempty xs sep = Inr m'" "t = Node m'"
    by (cases "unflatten_from fmempty xs sep") (auto simp: unflatten_def)
  have inj: "inj_on (split_from sep []) (set (map fst xs))" if "xs \<noteq> []"
  proof -
    from that m'(1) have "sep \<noteq> []"
      by (cases xs) (auto simp: str_split_def split: if_splits)
    then show ?thesis
      by (intro inj_onI) (metis str_split_inject str_split_def)
  qed
  have "distinct (map fst (paths_of sep xs))"
  proof (cases "xs = []")
    case True
    then show ?thesis by (simp add: paths_of_def)
  next
    case False
    have eq: "map fst (paths_of sep xs) = map (split_from sep []) (map fst xs)"
      by (simp add: paths_of_def comp_def case_prod_beta)
    have "distinct (map (split_from sep []) (map fst xs))"
      by (rule iffD2 [OF distinct_map]) (use inj [OF False] assms(2) in blast)
    then show ?thesis unfolding eq .
  qed
  then have "map_of (rev (paths_of sep xs)) = map_of (paths_of sep xs)"
    by (rule map_of_rev_distinct)
  with leaf_at_unflatten_from [OF m'(1)] show ?thesis
    by (auto simp: m'(2) fun_eq_iff split: option.splits)
qed

lemma node_at_simps [simp]:
  "node_at (Leaf v) q = False"
  "node_at (Node m) [] = True"
  "node_at (Node m) (k # ks) = (case fmlookup m k of None \<Rightarrow> False | Some t \<Rightarrow> node_at t ks)"
  by (cases q; simp_all add: node_at_def split: option.splits)+

lemma node_opt_simps [simp]:
  "node_opt None q = False" "node_opt (Some c) q = node_at c q"
  by (simp_all add: node_opt_def)

lemma proper_prefix_simps [simp]:
  "proper_prefix q [] = False"
  "proper_prefix [] (k # ks) = True"
  "proper_prefix (k' # q) (k # ks) = (k' = k \<and> proper_prefix q ks)"
  by (auto simp: proper_prefix_def)

lemma lookup_path_prefix:
  "lookup_path t p = Some x \<Longrightarrow> n < length p \<Longrightarrow> \<exists>m. lookup_path t (take n p) = Some (Node m)"
proof (induction p arbitrary: t n)
  case Nil
  then show ?case by simp
next
  case (Cons k ks)
  then obtain m where t: "t = Node m" by (cases t) auto
  show ?case
  proof (cases n)
    case 0
    then show ?thesis by (simp add: t)
  next
    case (Suc n')
    with Cons.prems Cons.IH [of _ n'] show ?thesis
      by (auto simp: t split: option.splits)
  qed
qed

lemma graft_ok:
  "(\<exists>c. graft ks v t = Inr c)
   \<longleftrightarrow> (\<forall>n<length ks. leaf_opt t (take n ks) = None) \<and> \<not> node_opt t ks"
proof (induction ks arbitrary: t)
  case Nil
  show ?case by (auto split: option.splits tree.splits)
next
  case (Cons k r)
  show ?case
  proof (cases t)
    case None
    from Cons.IH [of None] obtain c where "graft r v None = Inr c" by auto
    then show ?thesis by (simp add: None)
  next
    case (Some t')
    show ?thesis
    proof (cases t')
      case (Leaf u)
      then show ?thesis by (auto simp: Some)
    next
      case (Node sub)
      have "(\<exists>c. graft (k # r) v t = Inr c) \<longleftrightarrow> (\<exists>c. graft r v (fmlookup sub k) = Inr c)"
        by (cases "graft r v (fmlookup sub k)") (simp_all add: Some Node)
      also have "\<dots> \<longleftrightarrow> (\<forall>n<length r. leaf_opt (fmlookup sub k) (take n r) = None)
                        \<and> \<not> node_opt (fmlookup sub k) r"
        by (rule Cons.IH)
      also have "\<dots> \<longleftrightarrow> (\<forall>n<length (k # r). leaf_opt t (take n (k # r)) = None)
                        \<and> \<not> node_opt t (k # r)"
        by (auto simp: Some Node All_less_Suc2 leaf_opt_def node_opt_def
            split: option.splits) 
      finally show ?thesis .
    qed
  qed
qed

lemma node_at_graft:
  "graft ks v t = Inr c \<Longrightarrow>
   node_at c q = (proper_prefix q ks \<or> (q \<noteq> ks \<and> \<not> proper_prefix ks q \<and> node_opt t q))"
proof (induction ks arbitrary: t c q)
  case Nil
  then show ?case
    by (cases q) (auto split: option.splits tree.splits)
next
  case (Cons k r)
  show ?case
  proof (cases t)
    case None
    with Cons.prems obtain c' where c': "graft r v None = Inr c'" "c = Node (fmupd k c' fmempty)"
      by (cases "graft r v None") auto
    from Cons.IH [OF c'(1)] show ?thesis
      by (cases q) (auto simp: c' None)
  next
    case (Some t')
    with Cons.prems obtain sub c' where c': "t' = Node sub" "graft r v (fmlookup sub k) = Inr c'"
      "c = Node (fmupd k c' sub)"
      by (cases t'; cases "graft r v (fmlookup (case t' of Node s \<Rightarrow> s) k)") auto
    from Cons.IH [OF c'(2)] show ?thesis
      by (cases q) (auto simp: c' Some node_opt_def split: option.splits)
  qed
qed

lemma insert_path_ok:
  assumes "p \<noteq> []"
  shows "(\<exists>m'. insert_path p v m = Inr m') \<longleftrightarrow> clear m p"
proof -
  have "(\<exists>m'. insert_path p v m = Inr m') \<longleftrightarrow> (\<exists>c. graft p v (Some (Node m)) = Inr c)"
    by (cases "insert_path p v m") (simp_all add: graft_node [OF assms])
  then show ?thesis by (simp add: graft_ok clear_def)
qed

lemma node_at_insert_path:
  assumes "insert_path p v m = Inr m'"
  shows "node_at (Node m') q
       = (proper_prefix q p \<or> (q \<noteq> p \<and> \<not> proper_prefix p q \<and> node_at (Node m) q))"
proof -
  from assms have "p \<noteq> []" by auto
  with assms have "graft p v (Some (Node m)) = Inr (Node m')" by (simp add: graft_node)
  from node_at_graft [OF this] show ?thesis by simp
qed

lemma clear_after:
  assumes "insert_path p v m = Inr m1" and "clear m q"
    and "\<not> proper_prefix p q" and "\<not> proper_prefix q p"
  shows "clear m1 q"
proof -
  have "take n q \<noteq> p" if "n < length q" for n
    using that assms(3) by (auto simp: proper_prefix_def)
  with assms show ?thesis
    by (simp add: clear_def leaf_at_insert_path [OF assms(1)] node_at_insert_path [OF assms(1)])
qed

lemma clear_empty: "p \<noteq> [] \<Longrightarrow> clear fmempty p"
  by (cases p) (simp_all add: clear_def)

lemma prefix_free_Cons:
  "prefix_free (p # ps) \<longleftrightarrow>
   (\<forall>q\<in>set ps. \<not> proper_prefix p q \<and> \<not> proper_prefix q p) \<and> prefix_free ps"
  by (auto simp: prefix_free_def list_all_iff proper_prefix_def)

lemma unflatten_from_ok:
  assumes "sep \<noteq> []"
  shows "\<forall>p\<in>set (map fst (paths_of sep xs)). clear m p \<Longrightarrow>
         prefix_free (map fst (paths_of sep xs)) \<Longrightarrow> \<exists>m'. unflatten_from m xs sep = Inr m'"
proof (induction xs arbitrary: m)
  case Nil
  show ?case by simp
next
  case (Cons x xs)
  obtain key v where x: "x = (key, v)" by (cases x)
  define p where "p = split_from sep [] key"
  have ps: "map fst (paths_of sep (x # xs)) = p # map fst (paths_of sep xs)"
    by (simp add: paths_of_def x p_def)
  have ne: "p \<noteq> []" by (simp add: p_def split_from_nonempty)
  have "clear m p" using Cons.prems(1) unfolding ps by simp
  with insert_path_ok [OF ne, of v m] obtain m1 where m1: "insert_path p v m = Inr m1"
    by blast
  have pf: "(\<forall>q\<in>set (map fst (paths_of sep xs)). \<not> proper_prefix p q \<and> \<not> proper_prefix q p)
      \<and> prefix_free (map fst (paths_of sep xs))"
    using Cons.prems(2) unfolding ps prefix_free_Cons .
  have "\<forall>q\<in>set (map fst (paths_of sep xs)). clear m1 q"
  proof
    fix q assume q: "q \<in> set (map fst (paths_of sep xs))"
    have "\<forall>q\<in>set (p # map fst (paths_of sep xs)). clear m q"
      using Cons.prems(1) unfolding ps .
    with q have c: "clear m q" by auto
    from bspec [OF conjunct1 [OF pf] q]
    have "\<not> proper_prefix p q" "\<not> proper_prefix q p" by simp_all
    with m1 c show "clear m1 q" by (rule clear_after)
  qed
  from Cons.IH [OF this conjunct2 [OF pf]] obtain m' where "unflatten_from m1 xs sep = Inr m'" ..
  with m1 assms show ?case
    by (simp add: x str_split_def p_def)
qed

lemma unflatten_from_error:
  "unflatten_from m xs sep = Inl e \<Longrightarrow> sep \<noteq> [] \<Longrightarrow> e = StructuralConflictError"
proof (induction xs arbitrary: m)
  case Nil
  then show ?case by simp
next
  case (Cons x xs)
  obtain key v where x: "x = (key, v)" by (cases x)
  show ?case
  proof (cases "insert_path (split_from sep [] key) v m")
    case (Inl e')
    with Cons.prems insert_path_error [OF Inl] show ?thesis
      by (simp add: x str_split_def split_from_nonempty)
  next
    case (Inr m1)
    with Cons.prems Cons.IH [of m1] show ?thesis
      by (simp add: x str_split_def)
  qed
qed

lemma unflatten_succeeds_iff:
  assumes "sep \<noteq> []" and "distinct (map fst xs)"
  shows "(\<exists>t. unflatten xs sep = Inr t) \<longleftrightarrow> prefix_free (map fst (paths_of sep xs))"
proof
  assume "prefix_free (map fst (paths_of sep xs))"
  moreover have "\<forall>p\<in>set (map fst (paths_of sep xs)). clear fmempty p"
    by (auto simp: paths_of_def clear_empty split_from_nonempty)
  ultimately obtain m' where "unflatten_from fmempty xs sep = Inr m'"
    using unflatten_from_ok [OF assms(1)] by blast
  then show "\<exists>t. unflatten xs sep = Inr t" by (simp add: unflatten_def)
next
  assume "\<exists>t. unflatten xs sep = Inr t"
  then obtain t where t: "unflatten xs sep = Inr t" ..
  note leaves = leaf_at_unflatten [OF t assms(2)]
  have "\<not> proper_prefix p q"
    if "p \<in> set (map fst (paths_of sep xs))" "q \<in> set (map fst (paths_of sep xs))" for p q
  proof
    assume pq: "proper_prefix p q"
    from that have "map_of (paths_of sep xs) p \<noteq> None" "map_of (paths_of sep xs) q \<noteq> None"
      by (simp_all add: map_of_eq_None_iff)
    then obtain v w where "leaf_at t p = Some v" "leaf_at t q = Some w"
      unfolding leaves by auto
    then have lp: "lookup_path t p = Some (Leaf v)" and lq: "lookup_path t q = Some (Leaf w)"
      by (auto simp: leaf_at_def split: option.splits tree.splits)
    from pq have "length p < length q" "take (length p) q = p"
      by (simp_all add: proper_prefix_def)
    with lookup_path_prefix [OF lq, of "length p"] lp show False by auto
  qed
  then show "prefix_free (map fst (paths_of sep xs))"
    by (simp add: prefix_free_def list_all_iff)
qed

subsection \<open>Leaves of the reassembled tree\<close>

lemma distinct_paths_of:
  assumes "unflatten xs sep = Inr t" and "distinct (map fst xs)"
  shows "distinct (map fst (paths_of sep xs))"
proof (cases "xs = []")
  case True
  then show ?thesis by (simp add: paths_of_def)
next
  case False
  from assms(1) obtain m' where m': "unflatten_from fmempty xs sep = Inr m'"
    by (cases "unflatten_from fmempty xs sep") (auto simp: unflatten_def)
  with False have "sep \<noteq> []"
    by (cases xs) (auto simp: str_split_def split: if_splits)
  then have inj: "inj_on (split_from sep []) (set (map fst xs))"
    by (intro inj_onI) (metis str_split_inject str_split_def)
  have eq: "map fst (paths_of sep xs) = map (split_from sep []) (map fst xs)"
    by (simp add: paths_of_def comp_def case_prod_beta)
  have "distinct (map (split_from sep []) (map fst xs))"
    by (rule iffD2 [OF distinct_map]) (use inj assms(2) in blast)
  then show ?thesis unfolding eq .
qed

lemma leaves_of_entries:
  assumes t: "unflatten xs sep = Inr t" and d: "distinct (map fst xs)"
  shows "\<forall>i<length xs. leaf_at t (split_from sep [] (fst (xs ! i))) = Some (snd (xs ! i))"
    and "\<forall>p v. leaf_at t p = Some v \<longrightarrow>
           (\<exists>!i. i < length xs \<and> split_from sep [] (fst (xs ! i)) = p \<and> snd (xs ! i) = v)"
    and "card (dom (leaf_at t)) = length xs"
proof -
  let ?L = "paths_of sep xs"
  note leaves = leaf_at_unflatten [OF t d]
  note dist = distinct_paths_of [OF t d]
  have nth: "?L ! i = (split_from sep [] (fst (xs ! i)), snd (xs ! i))" if "i < length xs" for i
    using that by (simp add: paths_of_def case_prod_beta)
  have len: "length ?L = length xs" by (simp add: paths_of_def)
  show "\<forall>i<length xs. leaf_at t (split_from sep [] (fst (xs ! i))) = Some (snd (xs ! i))"
  proof (intro allI impI)
    fix i assume i: "i < length xs"
    then have "?L ! i \<in> set ?L" using len by simp
    then have "(split_from sep [] (fst (xs ! i)), snd (xs ! i)) \<in> set ?L"
      using nth [OF i] by simp
    with dist show "leaf_at t (split_from sep [] (fst (xs ! i))) = Some (snd (xs ! i))"
      unfolding leaves by (rule map_of_is_SomeI)
  qed
  show "\<forall>p v. leaf_at t p = Some v \<longrightarrow>
           (\<exists>!i. i < length xs \<and> split_from sep [] (fst (xs ! i)) = p \<and> snd (xs ! i) = v)"
  proof (intro allI impI)
    fix p v assume "leaf_at t p = Some v"
    then have "(p, v) \<in> set ?L" unfolding leaves by (rule map_of_SomeD)
    then obtain i where i: "i < length xs" "?L ! i = (p, v)"
      using len by (auto simp: in_set_conv_nth)
    show "\<exists>!i. i < length xs \<and> split_from sep [] (fst (xs ! i)) = p \<and> snd (xs ! i) = v"
    proof (rule ex1I [of _ i])
      show "i < length xs \<and> split_from sep [] (fst (xs ! i)) = p \<and> snd (xs ! i) = v"
        using i nth [OF i(1)] by simp
    next
      fix j assume j: "j < length xs \<and> split_from sep [] (fst (xs ! j)) = p \<and> snd (xs ! j) = v"
      then have "map fst ?L ! j = map fst ?L ! i"
        using i nth [of j] len by simp
      moreover have "j < length (map fst ?L)" "i < length (map fst ?L)"
        using j i(1) len by simp_all
      ultimately show "j = i"
        using nth_eq_iff_index_eq [OF dist] by blast
    qed
  qed
  have "dom (leaf_at t) = set (map fst ?L)"
    unfolding leaves by (simp add: dom_map_of_conv_image_fst)
  then show "card (dom (leaf_at t)) = length xs"
    using distinct_card [OF dist] len by simp
qed

text \<open>
  Claim C1, as amended.  For every flat input mapping in which every key matches exactly
  one registered pattern: whenever \<open>apply\<close> and then \<open>unflatten\<close> succeed, the tree has
  exactly one leaf per input entry.  The leaf at the path of the target key of entry \<open>i\<close>
  holds the translated tensor of entry \<open>i\<close>, every leaf of the tree is the leaf of exactly
  one entry, and the number of leaves is the number of entries.  They do succeed when
  every entry is dispatched without error, the target keys are pairwise distinct, and no
  target path is a proper prefix of another.
\<close>

theorem apply_unflatten_leaves:
  assumes "\<forall>entry\<in>set sd. match_count reg (fst entry) = 1"
  shows "(apply_state_dict reg sd = Inr out \<and> unflatten out sep = Inr t \<longrightarrow>
            length out = length sd
          \<and> (\<forall>i<length sd. dispatch reg (fst (sd ! i)) (snd (sd ! i)) = Inr (out ! i)
                \<and> leaf_at t (split_from sep [] (fst (out ! i))) = Some (snd (out ! i)))
          \<and> (\<forall>p v. leaf_at t p = Some v \<longrightarrow>
                (\<exists>!i. i < length sd \<and> split_from sep [] (fst (out ! i)) = p \<and> snd (out ! i) = v))
          \<and> card (dom (leaf_at t)) = length sd)
       \<and> (sep \<noteq> [] \<and> list_all2 (translated reg) sd news \<and> distinct (map fst news)
            \<and> prefix_free (map fst (paths_of sep news))
           \<longrightarrow> apply_state_dict reg sd = Inr news \<and> (\<exists>t. unflatten news sep = Inr t))"
proof (intro conjI impI)
  assume a: "apply_state_dict reg sd = Inr out \<and> unflatten out sep = Inr t"
  then have ap: "apply_state_dict reg sd = Inr out" and un: "unflatten out sep = Inr t"
    by simp_all
  note len = apply_Inr_nth(1) [OF ap]
  note d = apply_Inr(2) [OF ap]
  show "length out = length sd" by (rule len)
  show "\<forall>i<length sd. dispatch reg (fst (sd ! i)) (snd (sd ! i)) = Inr (out ! i)
                \<and> leaf_at t (split_from sep [] (fst (out ! i))) = Some (snd (out ! i))"
    using apply_Inr_nth(2) [OF ap] leaves_of_entries(1) [OF un d] len by simp
  show "\<forall>p v. leaf_at t p = Some v \<longrightarrow>
          (\<exists>!i. i < length sd \<and> split_from sep [] (fst (out ! i)) = p \<and> snd (out ! i) = v)"
    using leaves_of_entries(2) [OF un d] unfolding len .
  show "card (dom (leaf_at t)) = length sd"
    using leaves_of_entries(3) [OF un d] len by simp
next
  assume b: "sep \<noteq> [] \<and> list_all2 (translated reg) sd news \<and> distinct (map fst news)
            \<and> prefix_free (map fst (paths_of sep news))"
  from apply_from_all_translated [of reg sd news "[]"] b
  show "apply_state_dict reg sd = Inr news"
    by (auto simp: apply_state_dict_def)
  from b unflatten_succeeds_iff [of sep news] show "\<exists>t. unflatten news sep = Inr t"
    by simp
qed

theorem apply_unflatten_counterexample:
  "match_count (convnext_importer :: nat registry) ''features.0.0.bias'' = 1
   \<and> match_count (convnext_importer :: nat registry) ''features-0.0.bias'' = 1
   \<and> apply_state_dict convnext_importer
        [(''features.0.0.bias'', NDArray [1] [5 :: nat]), (''features-0.0.bias'', NDArray [1] [7])]
      = Inl (DuplicateTargetKeyError ''stem/layers_0/bias'')"
  by code_simp

lemma ex_apply:
  "apply_state_dict convnext_importer
     [(''features.0.0.bias'', NDArray [2] [1, 2 :: nat]),
      (''classifier.2.weight'', NDArray [2, 3] [1, 2, 3, 4, 5, 6])]
   = Inr [(''stem/layers_0/bias'', NDArray [2] [1, 2]),
          (''classifier/layers_2/kernel'', NDArray [3, 2] [1, 4, 2, 5, 3, 6])]"
  by code_simp

lemma ex_counts:
  "match_count (convnext_importer :: nat registry) ''features.0.0.bias'' = 1"
  "match_count (convnext_importer :: nat registry) ''classifier.2.weight'' = 1"
  by code_simp+

lemma ex_unflatten:
  "unflatten [(''stem/layers_0/bias'', a), (''classifier/layers_2/kernel'', b)] ''/''
   = Inr (Node (fmupd ''classifier'' (Node (fmupd ''layers_2'' (Node (fmupd ''kernel'' (Leaf b) fmempty)) fmempty))
           (fmupd ''stem'' (Node (fmupd ''layers_0'' (Node (fmupd ''bias'' (Leaf a) fmempty)) fmempty))
            fmempty)))"
  by (simp add: unflatten_def str_split_def startswith_def)

theorem apply_unflatten_leaves_witness:
  "match_count (convnext_importer :: nat registry) ''features.0.0.bias'' = 1
   \<and> match_count (convnext_importer :: nat registry) ''classifier.2.weight'' = 1
   \<and> apply_state_dict convnext_importer
       [(''features.0.0.bias'', NDArray [2] [1, 2 :: nat]),
        (''classifier.2.weight'', NDArray [2, 3] [1, 2, 3, 4, 5, 6])]
      = Inr [(''stem/layers_0/bias'', NDArray [2] [1, 2]),
             (''classifier/layers_2/kernel'', NDArray [3, 2] [1, 4, 2, 5, 3, 6])]
   \<and> unflatten [(''stem/layers_0/bias'', NDArray [2] [1, 2 :: nat]),
                (''classifier/layers_2/kernel'', NDArray [3, 2] [1, 4, 2, 5, 3, 6])] ''/''
      = Inr (Node (fmupd ''classifier'' (Node (fmupd ''layers_2'' (Node (fmupd ''kernel''
               (Leaf (NDArray [3, 2] [1, 4, 2, 5, 3, 6])) fmempty)) fmempty))
           (fmupd ''stem'' (Node (fmupd ''layers_0'' (Node (fmupd ''bias''
               (Leaf (NDArray [2] [1, 2])) fmempty)) fmempty)) fmempty)))
   \<and> card (dom (leaf_at (Node (fmupd ''classifier'' (Node (fmupd ''layers_2'' (Node (fmupd ''kernel''
               (Leaf (NDArray [3, 2] [1, 4, 2, 5, 3, 6 :: nat])) fmempty)) fmempty))
           (fmupd ''stem'' (Node (fmupd ''layers_0'' (Node (fmupd ''bias''
               (Leaf (NDArray [2] [1, 2])) fmempty)) fmempty)) fmempty)))))
      = 2"
proof -
  let ?sd = "[(''features.0.0.bias'', NDArray [2] [1, 2 :: nat]),
        (''classifier.2.weight'', NDArray [2, 3] [1, 2, 3, 4, 5, 6])]"
  have h: "\<forall>entry\<in>set ?sd. match_count (convnext_importer :: nat registry) (fst entry) = 1"
    using ex_counts by simp
  let ?out = "[(''stem/layers_0/bias'', NDArray [2] [1, 2 :: nat]),
             (''classifier/layers_2/kernel'', NDArray [3, 2] [1, 4, 2, 5, 3, 6])]"
  let ?t = "Node (fmupd ''classifier'' (Node (fmupd ''layers_2'' (Node (fmupd ''kernel''
               (Leaf (NDArray [3, 2] [1, 4, 2, 5, 3, 6 :: nat])) fmempty)) fmempty))
           (fmupd ''stem'' (Node (fmupd ''layers_0'' (Node (fmupd ''bias''
               (Leaf (NDArray [2] [1, 2])) fmempty)) fmempty)) fmempty))"
  have a: "apply_state_dict convnext_importer ?sd = Inr ?out" by (rule ex_apply)
  have u: "unflatten ?out ''/'' = Inr ?t" by (rule ex_unflatten)
  from apply_unflatten_leaves [OF h, of ?out "''/''" ?t] a u
  have "card (dom (leaf_at ?t)) = length ?sd" by blast
  then have "card (dom (leaf_at ?t)) = 2" by simp
  with a u ex_counts show ?thesis by blast
qed

text \<open>
  Claim C5.  The flat mapping of \<open>a/b/c\<close>, \<open>a/b/d\<close> and \<open>a/e\<close> unflattens to the tree
  \<open>{a: {b: {c: T1, d: T2}, e: T3}}\<close>.  The result of \<open>unflatten\<close>, tree or error, is the
  same for every order of the entries of a mapping.  In the tree it returns, the tensor of
  every entry lies at the path that splitting its key at the separator gives, and every
  shorter prefix of that path is a nested mapping.  A tree is returned exactly when no
  path is a proper prefix of another, and the only error is the structural conflict.
\<close>

theorem unflatten_reassembly:
  "unflatten [(''a/b/c'', T1), (''a/b/d'', T2), (''a/e'', T3)] ''/''
     = Inr (Node (fmap_of_list [(''a'', Node (fmap_of_list
         [(''b'', Node (fmap_of_list [(''c'', Leaf T1), (''d'', Leaf T2)])), (''e'', Leaf T3)]))]))
   \<and> (distinct (map fst xs) \<and> mset ys = mset xs \<longrightarrow> unflatten ys sep = unflatten xs sep)
   \<and> (distinct (map fst xs) \<and> unflatten xs sep = Inr t \<and> (key, v) \<in> set xs \<longrightarrow>
        (\<exists>path. str_split key sep = Inr path \<and> lookup_path t path = Some (Leaf v)
           \<and> (\<forall>n<length path. \<exists>m. lookup_path t (take n path) = Some (Node m))))
   \<and> (distinct (map fst xs) \<and> sep \<noteq> [] \<longrightarrow>
        ((\<exists>t. unflatten xs sep = Inr t) \<longleftrightarrow> prefix_free (map fst (paths_of sep xs)))
        \<and> (\<forall>e. unflatten xs sep = Inl e \<longrightarrow> e = StructuralConflictError))"
proof (intro conjI impI)
  show "unflatten [(''a/b/c'', T1), (''a/b/d'', T2), (''a/e'', T3)] ''/''
     = Inr (Node (fmap_of_list [(''a'', Node (fmap_of_list
         [(''b'', Node (fmap_of_list [(''c'', Leaf T1), (''d'', Leaf T2)])), (''e'', Leaf T3)]))]))"
    by (simp add: unflatten_def str_split_def startswith_def
        fmupd_reorder_neq [of "''c''" "''d''"] fmupd_reorder_neq [of "''b''" "''e''"])
next
  assume "distinct (map fst xs) \<and> mset ys = mset xs"
  then show "unflatten ys sep = unflatten xs sep"
    using unflatten_permuted [of xs ys sep] by simp
next
  assume a: "distinct (map fst xs) \<and> unflatten xs sep = Inr t \<and> (key, v) \<in> set xs"
  then have d: "distinct (map fst xs)" and u: "unflatten xs sep = Inr t"
    and mem: "(key, v) \<in> set xs" by simp_all
  from mem obtain i where i: "i < length xs" "xs ! i = (key, v)"
    by (auto simp: in_set_conv_nth)
  from u mem have sep: "sep \<noteq> []"
    by (cases xs) (auto simp: unflatten_def str_split_def split: if_splits)
  let ?p = "split_from sep [] key"
  from leaves_of_entries(1) [OF u d] i have "leaf_at t ?p = Some v" by fastforce
  then have l: "lookup_path t ?p = Some (Leaf v)"
    by (auto simp: leaf_at_def split: option.splits tree.splits)
  have "\<forall>n<length ?p. \<exists>m. lookup_path t (take n ?p) = Some (Node m)"
    using lookup_path_prefix [OF l] by blast
  with l sep show "\<exists>path. str_split key sep = Inr path \<and> lookup_path t path = Some (Leaf v)
           \<and> (\<forall>n<length path. \<exists>m. lookup_path t (take n path) = Some (Node m))"
    by (simp add: str_split_def)
next
  assume a: "distinct (map fst xs) \<and> sep \<noteq> []"
  then show "(\<exists>t. unflatten xs sep = Inr t) \<longleftrightarrow> prefix_free (map fst (paths_of sep xs))"
    using unflatten_succeeds_iff [of sep xs] by simp
  show "\<forall>e. unflatten xs sep = Inl e \<longrightarrow> e = StructuralConflictError"
  proof (intro allI impI)
    fix e assume "unflatten xs sep = Inl e"
    then have "unflatten_from fmempty xs sep = Inl e"
      by (cases "unflatten_from fmempty xs sep") (simp_all add: unflatten_def)
    with a show "e = StructuralConflictError" by (simp add: unflatten_from_error)
  qed
qed

theorem unflatten_reassembly_witness:
  "distinct (map fst [(''a/b/c'', 1 :: nat), (''a/b/d'', 2), (''a/e'', 3)])
   \<and> mset [(''a/e'', 3 :: nat), (''a/b/c'', 1), (''a/b/d'', 2)]
       = mset [(''a/b/c'', 1), (''a/b/d'', 2), (''a/e'', 3)]
   \<and> unflatten [(''a/e'', 3 :: nat), (''a/b/c'', 1), (''a/b/d'', 2)] ''/''
       = unflatten [(''a/b/c'', 1), (''a/b/d'', 2), (''a/e'', 3)] ''/''
   \<and> unflatten [(''a/b/c'', 1 :: nat), (''a/b/d'', 2), (''a/e'', 3)] ''/''
       = Inr (Node (fmap_of_list [(''a'', Node (fmap_of_list
           [(''b'', Node (fmap_of_list [(''c'', Leaf 1), (''d'', Leaf 2)])), (''e'', Leaf 3)]))]))"
proof -
  let ?xs = "[(''a/b/c'', 1 :: nat), (''a/b/d'', 2), (''a/e'', 3)]"
  let ?ys = "[(''a/e'', 3 :: nat), (''a/b/c'', 1), (''a/b/d'', 2)]"
  have d: "distinct (map fst ?xs)" by simp
  have m: "mset ?ys = mset ?xs" by (simp add: add_mset_commute)
  note th = unflatten_reassembly [of 1 2 3 ?xs ?ys "''/''"]
  from th d m have "unflatten ?ys ''/'' = unflatten ?xs ''/''" by blast
  moreover from th have "unflatten ?xs ''/''
       = Inr (Node (fmap_of_list [(''a'', Node (fmap_of_list
           [(''b'', Node (fmap_of_list [(''c'', Leaf 1), (''d'', Leaf 2)])), (''e'', Leaf 3)]))]))"
    by blast
  ultimately show ?thesis using d m by blast
qed

text \<open>
  Claim C10.  Whenever \<open>load_from_torch_checkpoint\<close> returns, it returns a mapping with the
  single key \<open>params\<close>, whose value is the tree that \<open>unflatten\<close> builds at \<open>/\<close> from the
  result of \<open>apply\<close>; whenever it fails, the error is that of \<open>apply\<close> or of \<open>unflatten\<close>.
\<close>

theorem load_returns_params:
  "(load_from_torch_checkpoint sd = Inr r \<longrightarrow>
      (\<exists>out t. apply_state_dict convnext_importer sd = Inr out \<and> unflatten out ''/'' = Inr t
         \<and> r = Node (fmupd ''params'' t fmempty)
         \<and> fmdom' (fmupd ''params'' t fmempty) = {''params''}))
   \<and> (load_from_torch_checkpoint sd = Inl e \<longrightarrow>
        apply_state_dict convnext_importer sd = Inl e
        \<or> (\<exists>out. apply_state_dict convnext_importer sd = Inr out \<and> unflatten out ''/'' = Inl e))"
proof -
  have id: "map (\<lambda>(k, v). (k, v)) out = out" for out :: "(string \<times> 'a ndarray) list"
    by (induction out) auto
  show ?thesis
  proof (cases "apply_state_dict convnext_importer sd")
    case (Inl e')
    then show ?thesis by (simp add: load_from_torch_checkpoint_def as_numpy_def)
  next
    case (Inr out)
    then show ?thesis
      by (cases "unflatten out ''/''")
         (simp_all add: load_from_torch_checkpoint_def as_numpy_def id)
  qed
qed

theorem load_returns_params_witness:
  "load_from_torch_checkpoint [(''features.0.0.bias'', NDArray [2] [5, 7 :: nat])]
     = Inr (Node (fmupd ''params''
         (Node (fmupd ''stem'' (Node (fmupd ''layers_0'' (Node (fmupd ''bias''
            (Leaf (NDArray [2] [5, 7])) fmempty)) fmempty)) fmempty)) fmempty))
   \<and> (\<exists>out t. apply_state_dict convnext_importer [(''features.0.0.bias'', NDArray [2] [5, 7 :: nat])]
          = Inr out \<and> unflatten out ''/'' = Inr t
        \<and> Node (fmupd ''params''
         (Node (fmupd ''stem'' (Node (fmupd ''layers_0'' (Node (fmupd ''bias''
            (Leaf (NDArray [2] [5, 7])) fmempty)) fmempty)) fmempty)) fmempty)
          = Node (fmupd ''params'' t fmempty))"
proof -
  let ?sd = "[(''features.0.0.bias'', NDArray [2] [5, 7 :: nat])]"
  have a: "apply_state_dict convnext_importer ?sd = Inr [(''stem/layers_0/bias'', NDArray [2] [5, 7])]"
    by code_simp
  have l: "load_from_torch_checkpoint ?sd
     = Inr (Node (fmupd ''params''
         (Node (fmupd ''stem'' (Node (fmupd ''layers_0'' (Node (fmupd ''bias''
            (Leaf (NDArray [2] [5, 7])) fmempty)) fmempty)) fmempty)) fmempty))"
    by (simp add: load_from_torch_checkpoint_def as_numpy_def a unflatten_def str_split_def
        startswith_def)
  from load_returns_params [of ?sd] l show ?thesis by blast
qed

end
